theory Spec2Isabelle
  imports Main "HOL-Library.Word" "HOL-Library.AList" "HOL-Library.Multiset"
begin

section \<open>Data model of the avalanche peer manager\<close>

text \<open>
  The development embeds \<^verbatim>\<open>src/avalanche/peermanager.cpp\<close>. Scores and peer ids
  are 32-bit unsigned integers, positions on the number line are 64-bit unsigned integers;
  both wrap around as C++ unsigned arithmetic does. Positions in \<^verbatim>\<open>std::vector\<close>
  are natural numbers (list positions); where the source computes with them as
  \<^verbatim>\<open>size_t\<close> (64 bits) the wrap-around is written out.
\<close>

type_synonym u64 = "64 word"
type_synonym u32 = "32 word"
type_synonym PeerId = u32

text \<open>
  Modelled from the spec: the header \<^verbatim>\<open>avalanche/peermanager.h\<close> (the constant
  \<^verbatim>\<open>NO_PEER\<close>, the class \<^verbatim>\<open>Slot\<close> with its accessors and the fields of
  \<^verbatim>\<open>PeerManager\<close>) is not among the sources. The sentinel is \<^verbatim>\<open>0xFFFF_FFFF\<close>.
\<close>

definition NO_PEER :: PeerId where
  "NO_PEER = 0xFFFFFFFF"

text \<open>
  Modelled from the spec: a slot is the triple \<^verbatim>\<open>(start: u64, score: u32, peer: PeerId)\<close>.
\<close>

record Slot =
  start :: u64
  score :: u32
  peerid :: PeerId

text \<open>
  Modelled from the spec: the accessors of \<^verbatim>\<open>Slot\<close>, with \<^verbatim>\<open>stop = start + score\<close>
  computed in 64 bits, \<^verbatim>\<open>contains(x) := start \<le> x < stop\<close>,
  \<^verbatim>\<open>precedes(x) := stop \<le> x\<close> and \<^verbatim>\<open>follows(x) := x < start\<close>; the three
  \<^verbatim>\<open>with...\<close> functions replace one field and keep the other two.
\<close>

definition getStart :: "Slot \<Rightarrow> u64" where
  "getStart s = start s"

definition getScore :: "Slot \<Rightarrow> u32" where
  "getScore s = score s"

definition getPeerId :: "Slot \<Rightarrow> PeerId" where
  "getPeerId s = peerid s"

definition getStop :: "Slot \<Rightarrow> u64" where
  "getStop s = start s + ucast (score s)"

definition withStart :: "Slot \<Rightarrow> u64 \<Rightarrow> Slot" where
  "withStart s startIn = \<lparr>start = startIn, score = score s, peerid = peerid s\<rparr>"

definition withScore :: "Slot \<Rightarrow> u32 \<Rightarrow> Slot" where
  "withScore s scoreIn = \<lparr>start = start s, score = scoreIn, peerid = peerid s\<rparr>"

definition withPeerId :: "Slot \<Rightarrow> PeerId \<Rightarrow> Slot" where
  "withPeerId s peeridIn = \<lparr>start = start s, score = score s, peerid = peeridIn\<rparr>"

definition contains :: "Slot \<Rightarrow> u64 \<Rightarrow> bool" where
  "contains s slot = (getStart s \<le> slot \<and> slot < getStop s)"

definition precedes :: "Slot \<Rightarrow> u64 \<Rightarrow> bool" where
  "precedes s slot = (getStop s \<le> slot)"

definition follows :: "Slot \<Rightarrow> u64 \<Rightarrow> bool" where
  "follows s slot = (slot < getStart s)"

text \<open>
  The state of a \<^verbatim>\<open>PeerManager\<close>: the slot array, the total length of the number
  line, the fragmentation counter, and the peer index (an \<^verbatim>\<open>unordered_map\<close> from
  peer id to position, kept as an association list with one entry per key).
\<close>

record PeerManager =
  slots :: "Slot list"
  slotCount :: u64
  fragmentation :: u64
  peerIndices :: "(PeerId \<times> nat) list"

definition empty_manager :: PeerManager where
  "empty_manager = \<lparr>slots = [], slotCount = 0, fragmentation = 0, peerIndices = []\<rparr>"

text \<open>
  What ends a call without returning to the caller: a failed \<^verbatim>\<open>assert\<close> aborts the
  process; an access outside a vector and a division by zero are undefined behaviour.
\<close>

datatype abort = AssertionFailure | OutOfBounds | DivisionByZero

section \<open>Mutations\<close>

text \<open>\<^verbatim>\<open>unordered_map::emplace\<close>: inserts only when the key is absent and says whether it did.\<close>

definition emplace :: "'k \<Rightarrow> 'v \<Rightarrow> ('k \<times> 'v) list \<Rightarrow> ('k \<times> 'v) list \<times> bool" where
  "emplace k v m = (case map_of m k of None \<Rightarrow> (m @ [(k, v)], True) | Some _ \<Rightarrow> (m, False))"

definition addPeer :: "PeerId \<Rightarrow> u32 \<Rightarrow> PeerManager \<Rightarrow> abort + (PeerId \<times> PeerManager)" where
  "addPeer p sc pm =
     (let (idx, inserted) = emplace p (length (slots pm)) (peerIndices pm) in
      if \<not> inserted then Inl AssertionFailure
      else
        let st = slotCount pm in
        Inr (p, pm\<lparr>slots := slots pm @ [\<lparr>start = st, score = sc, peerid = p\<rparr>],
                   slotCount := st + ucast sc,
                   peerIndices := idx\<rparr>))"

definition removePeer :: "PeerId \<Rightarrow> PeerManager \<Rightarrow> abort + (bool \<times> PeerManager)" where
  "removePeer p pm =
     (case map_of (peerIndices pm) p of
        None \<Rightarrow> Inr (False, pm)
      | Some i \<Rightarrow>
          if \<not> i < length (slots pm) then Inl AssertionFailure
          else
            let pm1 =
              (if i + 1 = length (slots pm) then
                 let sl = butlast (slots pm) in
                 pm\<lparr>slots := sl, slotCount := (if sl = [] then 0 else getStop (last sl))\<rparr>
               else
                 pm\<lparr>fragmentation := fragmentation pm + ucast (getScore (slots pm ! i)),
                    slots := (slots pm)[i := withPeerId (slots pm ! i) NO_PEER]\<rparr>)
            in Inr (True, pm1\<lparr>peerIndices := AList.delete p (peerIndices pm1)\<rparr>))"

text \<open>
  The three branches of \<^verbatim>\<open>rescorePeer\<close> for a peer found at an interior position are
  decided by \<^verbatim>\<open>stop <= nextStart\<close>; the amount the in-place branch adds to the
  fragmentation counter is \<^verbatim>\<open>slots[i].getStop() - stop\<close>, a 64-bit subtraction.
\<close>

definition fits_in_place :: "Slot list \<Rightarrow> nat \<Rightarrow> u32 \<Rightarrow> bool" where
  "fits_in_place sl i sc = (getStart (sl ! i) + ucast sc \<le> getStart (sl ! (i + 1)))"

definition in_place_delta :: "Slot list \<Rightarrow> nat \<Rightarrow> u32 \<Rightarrow> u64" where
  "in_place_delta sl i sc = getStop (sl ! i) - (getStart (sl ! i) + ucast sc)"

definition rescorePeer :: "PeerId \<Rightarrow> u32 \<Rightarrow> PeerManager \<Rightarrow> abort + (bool \<times> PeerManager)" where
  "rescorePeer p sc pm =
     (case map_of (peerIndices pm) p of
        None \<Rightarrow> Inr (False, pm)
      | Some i \<Rightarrow>
          if \<not> i < length (slots pm) then Inl AssertionFailure
          else if i + 1 = length (slots pm) then
            let sl = (slots pm)[i := withScore (slots pm ! i) sc] in
            Inr (True, pm\<lparr>slots := sl, slotCount := getStop (sl ! i)\<rparr>)
          else if fits_in_place (slots pm) i sc then
            Inr (True, pm\<lparr>fragmentation := fragmentation pm + in_place_delta (slots pm) i sc,
                          slots := (slots pm)[i := withScore (slots pm ! i) sc]\<rparr>)
          else
            let newStart = slotCount pm in
            Inr (True, pm\<lparr>fragmentation := fragmentation pm + ucast (getScore (slots pm ! i)),
                          slots := (slots pm)[i := withPeerId (slots pm ! i) NO_PEER]
                                     @ [\<lparr>start = newStart, score = sc, peerid = p\<rparr>],
                          peerIndices := AList.update p (length (slots pm)) (peerIndices pm),
                          slotCount := newStart + ucast sc\<rparr>))"

section \<open>Compaction\<close>

function clearLastElements :: "Slot list \<Rightarrow> Slot list" where
  "clearLastElements sl =
     (if sl \<noteq> [] \<and> getPeerId (last sl) = NO_PEER then clearLastElements (butlast sl) else sl)"
  by pat_completeness auto
termination
  by (relation "measure length") auto

declare clearLastElements.simps [simp del]

lemma length_clearLastElements: "length (clearLastElements sl) \<le> length sl"
proof (induction sl rule: clearLastElements.induct)
  case (1 sl)
  show ?case
  proof (cases "sl \<noteq> [] \<and> getPeerId (last sl) = NO_PEER")
    case True
    then have "length (clearLastElements (butlast sl)) \<le> length (butlast sl)"
      using "1" by blast
    then have "length (clearLastElements (butlast sl)) \<le> length sl"
      by simp
    then show ?thesis
      using True by (subst clearLastElements.simps) simp
  next
    case False
    then show ?thesis
      by (subst clearLastElements.simps) auto
  qed
qed

text \<open>
  The sweep of \<^verbatim>\<open>compact\<close>: \<open>i\<close> is the loop counter, \<open>prevStop\<close> the running
  stop; the result is the final slot array, peer index and \<open>prevStop\<close>.
\<close>

function compact_loop ::
  "nat \<Rightarrow> u64 \<Rightarrow> Slot list \<Rightarrow> (PeerId \<times> nat) list
     \<Rightarrow> abort + (Slot list \<times> (PeerId \<times> nat) list \<times> u64)" where
  "compact_loop i prevStop sl idx =
     (if i < length sl then
        if getPeerId (sl ! i) \<noteq> NO_PEER then
          let s = withStart (sl ! i) prevStop in
          compact_loop (i + 1) (getStop s) (sl[i := s]) idx
        else
          let s = withStart (last sl) prevStop in
          if \<not> getPeerId s \<noteq> NO_PEER then Inl AssertionFailure
          else
            compact_loop (i + 1) (getStop s)
              (clearLastElements (butlast (sl[i := s])))
              (AList.update (getPeerId s) i idx)
      else Inr (sl, idx, prevStop))"
  by pat_completeness auto
termination
proof (relation "measure (\<lambda>(i, prevStop, sl, idx). length sl - i)", goal_cases)
  case 1
  show ?case by simp
next
  case (2 i prevStop sl idx s)
  then show ?case by simp
next
  case (3 i prevStop sl idx s)
  have "length (clearLastElements (butlast (sl[i := s]))) \<le> length sl - 1"
    using length_clearLastElements [of "butlast (sl[i := s])"] by simp
  with 3 show ?case by simp
qed

declare compact_loop.simps [simp del]

definition compact :: "PeerManager \<Rightarrow> abort + (u64 \<times> PeerManager)" where
  "compact pm =
     (case compact_loop 0 0 (clearLastElements (slots pm)) (peerIndices pm) of
        Inl a \<Rightarrow> Inl a
      | Inr (sl, idx, prevStop) \<Rightarrow>
          Inr (slotCount pm - prevStop,
               pm\<lparr>slots := sl, peerIndices := idx, slotCount := prevStop, fragmentation := 0\<rparr>))"

section \<open>Verification of the invariants\<close>

text \<open>
  The first loop of \<^verbatim>\<open>verify\<close>, over the slots that remain, with the position
  \<open>i\<close> of the first of them and the running \<open>prevStop\<close>.
\<close>

fun verify_slots :: "(PeerId \<times> nat) list \<Rightarrow> Slot list \<Rightarrow> nat \<Rightarrow> u64 \<Rightarrow> bool" where
  "verify_slots idx [] i prevStop = True"
| "verify_slots idx (s # ss) i prevStop =
     (if getStart s < prevStop then False
      else if getPeerId s = NO_PEER then verify_slots idx ss (i + 1) (getStop s)
      else
        (case map_of idx (getPeerId s) of
           None \<Rightarrow> False
         | Some j \<Rightarrow> if j \<noteq> i then False else verify_slots idx ss (i + 1) (getStop s)))"

text \<open>The second loop: every index entry points to a slot that refers to its peer.\<close>

definition verify_index :: "Slot list \<Rightarrow> (PeerId \<times> nat) list \<Rightarrow> bool" where
  "verify_index sl idx = list_all (\<lambda>(p, i). \<not> (i \<ge> length sl \<or> getPeerId (sl ! i) \<noteq> p)) idx"

definition verify :: "PeerManager \<Rightarrow> bool" where
  "verify pm = (verify_slots (peerIndices pm) (slots pm) 0 0 \<and> verify_index (slots pm) (peerIndices pm))"

section \<open>Selection\<close>

text \<open>
  \<^verbatim>\<open>size_t\<close> is 64 bits wide: subtraction and addition of positions wrap around.
\<close>

definition size_sub :: "nat \<Rightarrow> nat \<Rightarrow> nat" where
  "size_sub a b = (if b \<le> a then a - b else a + 2 ^ 64 - b)"

definition size_add :: "nat \<Rightarrow> nat \<Rightarrow> nat" where
  "size_add a b = (a + b) mod 2 ^ 64"

text \<open>
  The guess of the interpolation step,
  \<^verbatim>\<open>begin + ((slot - bottom) * (end - begin) / (top - bottom))\<close>: the product and the
  quotient are computed in 64 bits.
\<close>

definition probe :: "nat \<Rightarrow> nat \<Rightarrow> u64 \<Rightarrow> u64 \<Rightarrow> u64 \<Rightarrow> nat" where
  "probe beginI endI bottom top' slot =
     size_add beginI (unat ((slot - bottom) * of_nat (size_sub endI beginI) div (top' - bottom)))"

text \<open>The final linear scan over the positions \<open>i, ..., endI - 1\<close>.\<close>

function linear_search :: "Slot list \<Rightarrow> u64 \<Rightarrow> nat \<Rightarrow> nat \<Rightarrow> abort + PeerId" where
  "linear_search sl slot i endI =
     (if i < endI then
        if \<not> i < length sl then Inl OutOfBounds
        else if contains (sl ! i) slot then Inr (getPeerId (sl ! i))
        else linear_search sl slot (i + 1) endI
      else Inr NO_PEER)"
  by pat_completeness auto
termination
  by (relation "measure (\<lambda>(sl, slot, i, endI). endI - i)") auto

declare linear_search.simps [simp del]

text \<open>
  The interpolation loop on the window of positions \<open>[beginI, endI)\<close> and of offsets
  \<open>[bottom, top')\<close>. A recursive call is made only after the assertion
  \<^verbatim>\<open>begin <= i && i < end\<close> has passed, so \<open>i + 1\<close> cannot wrap around.
\<close>

function interpolation_search ::
  "Slot list \<Rightarrow> u64 \<Rightarrow> nat \<Rightarrow> nat \<Rightarrow> u64 \<Rightarrow> u64 \<Rightarrow> abort + PeerId" where
  "interpolation_search sl slot beginI endI bottom top' =
     (if size_sub endI beginI > 8 then
        if slot < bottom \<or> slot \<ge> top' then Inr NO_PEER
        else if top' - bottom = 0 then Inl DivisionByZero
        else
          let i = probe beginI endI bottom top' slot in
          if \<not> (beginI \<le> i \<and> i < endI) then Inl AssertionFailure
          else if \<not> i < length sl then Inl OutOfBounds
          else if contains (sl ! i) slot then Inr (getPeerId (sl ! i))
          else if precedes (sl ! i) slot then
            if i + 1 \<ge> endI then Inr NO_PEER
            else if \<not> i + 1 < length sl then Inl OutOfBounds
            else interpolation_search sl slot (i + 1) endI (getStart (sl ! (i + 1))) top'
          else if follows (sl ! i) slot then
            interpolation_search sl slot beginI i bottom (getStart (sl ! i))
          else Inr NO_PEER
      else linear_search sl slot beginI endI)"
  by pat_completeness auto
termination
  by (relation "measure (\<lambda>(sl, slot, beginI, endI, bottom, top'). endI - beginI)") auto

declare interpolation_search.simps [simp del]

definition selectPeerImpl :: "Slot list \<Rightarrow> u64 \<Rightarrow> u64 \<Rightarrow> abort + PeerId" where
  "selectPeerImpl sl slot max' =
     (if \<not> slot \<le> max' then Inl AssertionFailure
      else interpolation_search sl slot 0 (length sl) 0 max')"

section \<open>Sequences of calls\<close>

datatype call = AddPeer PeerId u32 | RemovePeer PeerId | RescorePeer PeerId u32 | Compact

fun exec :: "call \<Rightarrow> PeerManager \<Rightarrow> abort + PeerManager" where
  "exec (AddPeer p sc) pm = map_sum id snd (addPeer p sc pm)"
| "exec (RemovePeer p) pm = map_sum id snd (removePeer p pm)"
| "exec (RescorePeer p sc) pm = map_sum id snd (rescorePeer p sc pm)"
| "exec Compact pm = map_sum id snd (compact pm)"

fun run :: "call list \<Rightarrow> PeerManager \<Rightarrow> abort + PeerManager" where
  "run [] pm = Inr pm"
| "run (c # cs) pm = (case exec c pm of Inl a \<Rightarrow> Inl a | Inr pm' \<Rightarrow> run cs pm')"

section \<open>The invariants of the slot array\<close>

text \<open>
  The stop of a slot as a natural number, without the 64-bit wrap-around, and the
  ordering invariant of the data model: for every adjacent pair \<open>(a, b)\<close> of slots,
  \<open>a.stop \<le> b.start\<close>; the stop of the last slot fits in 64 bits (it is the value of
  \<^verbatim>\<open>slotCount\<close>). Gaps are allowed.
\<close>

definition stopN :: "Slot \<Rightarrow> nat" where
  "stopN s = unat (start s) + unat (score s)"

definition slots_monotone :: "Slot list \<Rightarrow> bool" where
  "slots_monotone sl =
     (successively (\<lambda>a b. stopN a \<le> unat (getStart b)) sl \<and> (sl \<noteq> [] \<longrightarrow> stopN (last sl) < 2 ^ 64))"

text \<open>
  What a search for the offset \<open>x\<close> has to answer: the peer of a slot that contains
  \<open>x\<close>, or \<^verbatim>\<open>NO_PEER\<close> when no slot contains it.
\<close>

definition selects :: "Slot list \<Rightarrow> u64 \<Rightarrow> PeerId \<Rightarrow> bool" where
  "selects sl x p =
     ((\<exists>j < length sl. contains (sl ! j) x \<and> p = getPeerId (sl ! j))
      \<or> ((\<forall>j < length sl. \<not> contains (sl ! j) x) \<and> p = NO_PEER))"

text \<open>
  The correspondence between the peer index and the slots: one entry per key, every entry
  points to a slot that refers to its peer, and every live slot has its entry.
\<close>

definition index_ok :: "Slot list \<Rightarrow> (PeerId \<times> nat) list \<Rightarrow> bool" where
  "index_ok sl idx =
     (distinct (map fst idx)
      \<and> (\<forall>p i. map_of idx p = Some i \<longrightarrow> i < length sl \<and> getPeerId (sl ! i) = p)
      \<and> (\<forall>i < length sl. getPeerId (sl ! i) \<noteq> NO_PEER \<longrightarrow> map_of idx (getPeerId (sl ! i)) = Some i))"

text \<open>
  The ordering of the slots as \<^verbatim>\<open>verify\<close> checks it, with the 64-bit stops, and
  \<^verbatim>\<open>slotCount\<close> as the stop of the last slot.
\<close>

definition line_wrapped :: "Slot list \<Rightarrow> u64 \<Rightarrow> bool" where
  "line_wrapped sl cnt =
     (successively (\<lambda>a b. getStop a \<le> getStart b) sl
      \<and> cnt = (if sl = [] then 0 else getStop (last sl)))"

definition verified :: "PeerManager \<Rightarrow> bool" where
  "verified pm = (index_ok (slots pm) (peerIndices pm) \<and> line_wrapped (slots pm) (slotCount pm))"

text \<open>
  Sequences of \<^verbatim>\<open>addPeer\<close>, \<^verbatim>\<open>removePeer\<close> and \<^verbatim>\<open>rescorePeer\<close> calls in
  which every \<^verbatim>\<open>addPeer\<close> is given a peer id that is not present at that moment.
\<close>

fun plain_call :: "PeerManager \<Rightarrow> call \<Rightarrow> bool" where
  "plain_call pm (AddPeer p sc) = (map_of (peerIndices pm) p = None)"
| "plain_call pm (RemovePeer p) = True"
| "plain_call pm (RescorePeer p sc) = True"
| "plain_call pm Compact = False"

fun plain_calls :: "call list \<Rightarrow> PeerManager \<Rightarrow> bool" where
  "plain_calls [] pm = True"
| "plain_calls (c # cs) pm =
     (plain_call pm c \<and> (case exec c pm of Inl a \<Rightarrow> True | Inr pm' \<Rightarrow> plain_calls cs pm'))"

text \<open>A slot is live when its peer is not the sentinel.\<close>

definition live :: "Slot \<Rightarrow> bool" where
  "live s = (getPeerId s \<noteq> NO_PEER)"

text \<open>
  Slots packed without gaps from the offset \<open>p\<close> to the offset \<open>e\<close>: the first starts
  at \<open>p\<close>, each next one starts where the previous one stops, the last stops at \<open>e\<close>.
\<close>

fun packed :: "u64 \<Rightarrow> Slot list \<Rightarrow> u64 \<Rightarrow> bool" where
  "packed p [] e = (e = p)"
| "packed p (s # ss) e = (getStart s = p \<and> packed (getStop s) ss e)"

text \<open>What compaction keeps of a slot: its peer and its score.\<close>

definition peer_score :: "Slot \<Rightarrow> PeerId \<times> u32" where
  "peer_score s = (getPeerId s, getScore s)"

text \<open>
  The invariant of the sweep of \<^verbatim>\<open>compact\<close> at position \<open>i\<close>, and what the rest
  of the sweep establishes from there: the positions below \<open>i\<close> are left alone, the slots
  from \<open>i\<close> on are live and packed from \<open>prev\<close>, the index matches the slots, and the
  peers and scores from \<open>i\<close> on are those of the live slots that were there.
\<close>

definition compact_pre :: "nat \<Rightarrow> Slot list \<Rightarrow> (PeerId \<times> nat) list \<Rightarrow> bool" where
  "compact_pre i sl idx =
     (i \<le> length sl \<and> (i < length sl \<longrightarrow> live (last sl)) \<and> index_ok sl idx
      \<and> NO_PEER \<notin> fst ` set idx)"

definition compact_post ::
  "nat \<Rightarrow> u64 \<Rightarrow> Slot list \<Rightarrow> (PeerId \<times> nat) list
     \<Rightarrow> Slot list \<times> (PeerId \<times> nat) list \<times> u64 \<Rightarrow> bool" where
  "compact_post i prev sl idx r =
     (case r of (sl', idx', prev') \<Rightarrow>
        i \<le> length sl' \<and> take i sl' = take i sl
        \<and> (\<forall>s \<in> set (drop i sl'). live s)
        \<and> packed prev (drop i sl') prev'
        \<and> index_ok sl' idx' \<and> fst ` set idx' = fst ` set idx
        \<and> mset (map peer_score (drop i sl')) = mset (map peer_score (filter live (drop i sl))))"

text \<open>
  The ordering of the slots on the number line without wrap-around, with
  \<^verbatim>\<open>slotCount\<close> the stop of the last slot, and the invariant of the states reached by
  valid calls: the index matches the slots, the sentinel is not a key, the line is ordered.
\<close>

definition line_exact :: "Slot list \<Rightarrow> u64 \<Rightarrow> bool" where
  "line_exact sl cnt =
     (successively (\<lambda>a b. stopN a \<le> unat (getStart b)) sl
      \<and> (if sl = [] then cnt = 0 else stopN (last sl) = unat cnt))"

definition state_inv :: "PeerManager \<Rightarrow> bool" where
  "state_inv pm =
     (index_ok (slots pm) (peerIndices pm) \<and> NO_PEER \<notin> fst ` set (peerIndices pm)
      \<and> line_exact (slots pm) (slotCount pm))"

text \<open>
  A valid call: \<^verbatim>\<open>addPeer\<close> with a peer id that is not present and is not the sentinel;
  no 64-bit addition that the call performs (\<open>slotCount + score\<close>, \<open>start + score\<close>)
  wraps around. \<^verbatim>\<open>removePeer\<close> and \<^verbatim>\<open>compact\<close> are always valid.
\<close>

fun valid_call :: "PeerManager \<Rightarrow> call \<Rightarrow> bool" where
  "valid_call pm (AddPeer p sc) =
     (map_of (peerIndices pm) p = None \<and> p \<noteq> NO_PEER \<and> unat (slotCount pm) + unat sc < 2 ^ 64)"
| "valid_call pm (RemovePeer p) = True"
| "valid_call pm (RescorePeer p sc) =
     (case map_of (peerIndices pm) p of
        None \<Rightarrow> True
      | Some i \<Rightarrow>
          unat (getStart (slots pm ! i)) + unat sc < 2 ^ 64
          \<and> (i + 1 = length (slots pm) \<or> fits_in_place (slots pm) i sc
              \<or> unat (slotCount pm) + unat sc < 2 ^ 64))"
| "valid_call pm Compact = True"

fun valid_calls :: "call list \<Rightarrow> PeerManager \<Rightarrow> bool" where
  "valid_calls [] pm = True"
| "valid_calls (c # cs) pm =
     (valid_call pm c \<and> (case exec c pm of Inl a \<Rightarrow> True | Inr pm' \<Rightarrow> valid_calls cs pm'))"

text \<open>The sum of the scores of a slot array, as a natural number.\<close>

definition score_sum :: "Slot list \<Rightarrow> nat" where
  "score_sum sl = sum_list (map (\<lambda>s. unat (getScore s)) sl)"

section \<open>Concrete states\<close>

text \<open>The state after \<^verbatim>\<open>addPeer(1,10); addPeer(2,20); rescorePeer(1,5)\<close>.\<close>

definition scenario4 :: PeerManager where
  "scenario4 =
     \<lparr>slots = [\<lparr>start = 0, score = 5, peerid = 1\<rparr>, \<lparr>start = 10, score = 20, peerid = 2\<rparr>],
      slotCount = 30, fragmentation = 5, peerIndices = [(1, 0), (2, 1)]\<rparr>"

text \<open>The state after \<^verbatim>\<open>addPeer(10,100); addPeer(20,200); addPeer(30,300)\<close>.\<close>

definition scenario1 :: PeerManager where
  "scenario1 =
     \<lparr>slots = [\<lparr>start = 0, score = 100, peerid = 10\<rparr>, \<lparr>start = 100, score = 200, peerid = 20\<rparr>,
               \<lparr>start = 300, score = 300, peerid = 30\<rparr>],
      slotCount = 600, fragmentation = 0, peerIndices = [(10, 0), (20, 1), (30, 2)]\<rparr>"

text \<open>
  A state that satisfies the invariants of the data model and whose number line ends one
  below \<open>2^64\<close>: a slot at 0, a gap, and a slot of score 5 ending at \<open>2^64 - 1\<close>.
\<close>

definition full_line :: PeerManager where
  "full_line =
     \<lparr>slots = [\<lparr>start = 0, score = 1, peerid = 1\<rparr>,
               \<lparr>start = 0xFFFFFFFFFFFFFFFA, score = 5, peerid = 2\<rparr>],
      slotCount = 0xFFFFFFFFFFFFFFFF, fragmentation = 0, peerIndices = [(1, 0), (2, 1)]\<rparr>"

text \<open>
  Ten slots that cover \<open>[0, 100)\<close> with a tombstone at position 1 and a gap
  \<open>[25, 30)\<close> after position 2.
\<close>

definition ten_slots :: "Slot list" where
  "ten_slots =
     [\<lparr>start = 0, score = 10, peerid = 100\<rparr>, \<lparr>start = 10, score = 10, peerid = NO_PEER\<rparr>,
      \<lparr>start = 20, score = 5, peerid = 102\<rparr>, \<lparr>start = 30, score = 10, peerid = 103\<rparr>,
      \<lparr>start = 40, score = 10, peerid = 104\<rparr>, \<lparr>start = 50, score = 10, peerid = 105\<rparr>,
      \<lparr>start = 60, score = 10, peerid = 106\<rparr>, \<lparr>start = 70, score = 10, peerid = 107\<rparr>,
      \<lparr>start = 80, score = 10, peerid = 108\<rparr>, \<lparr>start = 90, score = 10, peerid = 109\<rparr>]"

text \<open>
  Nine slots of score 1 spread over the number line at multiples of \<open>2^60\<close>; for the
  offset \<open>2^63\<close> the product of the first interpolation step is \<open>9 * 2^63\<close>, which
  does not fit in 64 bits.
\<close>

definition wide_slots :: "Slot list" where
  "wide_slots =
     [\<lparr>start = 0, score = 1, peerid = 1\<rparr>,
      \<lparr>start = 0x1000000000000000, score = 1, peerid = 2\<rparr>,
      \<lparr>start = 0x2000000000000000, score = 1, peerid = 3\<rparr>,
      \<lparr>start = 0x3000000000000000, score = 1, peerid = 4\<rparr>,
      \<lparr>start = 0x4000000000000000, score = 1, peerid = 5\<rparr>,
      \<lparr>start = 0x5000000000000000, score = 1, peerid = 6\<rparr>,
      \<lparr>start = 0x6000000000000000, score = 1, peerid = 7\<rparr>,
      \<lparr>start = 0x7000000000000000, score = 1, peerid = 8\<rparr>,
      \<lparr>start = 0x8000000000000000, score = 1, peerid = 9\<rparr>]"

text \<open>
  The state after \<^verbatim>\<open>addPeer(10,100); addPeer(20,200); addPeer(30,300); removePeer(20)\<close>,
  and the state after a subsequent \<^verbatim>\<open>compact()\<close>.
\<close>

definition scenario2 :: PeerManager where
  "scenario2 =
     \<lparr>slots = [\<lparr>start = 0, score = 100, peerid = 10\<rparr>, \<lparr>start = 100, score = 200, peerid = NO_PEER\<rparr>,
               \<lparr>start = 300, score = 300, peerid = 30\<rparr>],
      slotCount = 600, fragmentation = 200, peerIndices = [(10, 0), (30, 2)]\<rparr>"

definition scenario3 :: PeerManager where
  "scenario3 =
     \<lparr>slots = [\<lparr>start = 0, score = 100, peerid = 10\<rparr>, \<lparr>start = 100, score = 300, peerid = 30\<rparr>],
      slotCount = 400, fragmentation = 0, peerIndices = [(10, 0), (30, 1)]\<rparr>"

section \<open>Basic facts\<close>

lemmas slot_defs =
  getStart_def getStop_def getScore_def getPeerId_def withStart_def withScore_def withPeerId_def

lemmas mutation_defs =
  addPeer_def emplace_def removePeer_def rescorePeer_def fits_in_place_def in_place_delta_def

lemmas search_defs =
  selectPeerImpl_def interpolation_search.simps linear_search.simps probe_def size_sub_def
  size_add_def contains_def precedes_def follows_def slot_defs Let_def

lemma unat_ucast_u32: "unat (ucast (x :: u32) :: u64) = unat x"
proof -
  have "unat x < 2 ^ 32"
    using unsigned_less [of x] by simp
  then have "unat x < 2 ^ 64"
    by simp
  then show ?thesis
    by (simp add: unsigned_ucast_eq take_bit_nat_eq_self)
qed

lemma unat_u32_bound: "unat (x :: u32) < 2 ^ 32"
  using unsigned_less [of x] by simp

lemma unat_u64_bound: "unat (x :: u64) < 2 ^ 64"
  using unsigned_less [of x] by simp

section \<open>The in-place branch of rescorePeer\<close>

text \<open>
  C5, as stated: in the interior fits-in-place branch the quantity
  \<^verbatim>\<open>s.stop - (start + score)\<close> is non-negative. It is not: after
  \<^verbatim>\<open>addPeer(1,10); addPeer(2,20); rescorePeer(1,5)\<close> the call \<^verbatim>\<open>rescorePeer(1,8)\<close>
  takes the in-place branch (\<open>0 + 8 \<le> 10\<close>) with the old stop 5 below the new stop 8; the
  64-bit subtraction wraps around to \<open>2^64 - 3\<close>, and adding it brings the counter from 5
  to 2.
\<close>

theorem rescore_delta_negative_counterexample:
  "run [AddPeer 1 10, AddPeer 2 20, RescorePeer 1 5] empty_manager = Inr scenario4
   \<and> map_of (peerIndices scenario4) 1 = Some 0
   \<and> 0 + 1 < length (slots scenario4)
   \<and> fits_in_place (slots scenario4) 0 8
   \<and> getStop (slots scenario4 ! 0) < getStart (slots scenario4 ! 0) + ucast (8 :: u32)
   \<and> in_place_delta (slots scenario4) 0 8 = 0xFFFFFFFFFFFFFFFD
   \<and> map_sum id (fragmentation \<circ> snd) (rescorePeer 1 8 scenario4) = Inr 2"
  by (simp add: empty_manager_def mutation_defs slot_defs scenario4_def)

text \<open>
  C5, amended: in the interior fits-in-place branch \<^verbatim>\<open>rescorePeer\<close> succeeds, replaces
  the score, leaves \<^verbatim>\<open>slotCount\<close> alone and adds to the fragmentation counter the
  64-bit value \<^verbatim>\<open>s.stop - (start + score)\<close>, which is the old score minus the new one
  modulo \<open>2^64\<close>: the plain difference when the new score is at most the old one, and
  \<open>2^64\<close> minus the growth when the new score is larger, so that the counter goes down
  by the growth.
\<close>

theorem rescore_in_place_delta:
  assumes "map_of (peerIndices pm) p = Some i"
    and "i + 1 < length (slots pm)"
    and "fits_in_place (slots pm) i sc"
  shows "\<exists>pm'. rescorePeer p sc pm = Inr (True, pm')
      \<and> slots pm' = (slots pm)[i := withScore (slots pm ! i) sc]
      \<and> slotCount pm' = slotCount pm
      \<and> fragmentation pm' = fragmentation pm + in_place_delta (slots pm) i sc
      \<and> fragmentation pm' = fragmentation pm + ucast (getScore (slots pm ! i)) - ucast sc
      \<and> unat (in_place_delta (slots pm) i sc) =
          (if sc \<le> getScore (slots pm ! i) then unat (getScore (slots pm ! i)) - unat sc
           else 2 ^ 64 - (unat sc - unat (getScore (slots pm ! i))))"
proof -
  let ?old = "getScore (slots pm ! i)"
  have res: "rescorePeer p sc pm =
      Inr (True, pm\<lparr>fragmentation := fragmentation pm + in_place_delta (slots pm) i sc,
                    slots := (slots pm)[i := withScore (slots pm ! i) sc]\<rparr>)"
    using assms by (simp add: rescorePeer_def)
  have d: "in_place_delta (slots pm) i sc = ucast ?old - ucast sc"
    by (simp add: in_place_delta_def slot_defs)
  have u: "unat (in_place_delta (slots pm) i sc) =
      (if sc \<le> ?old then unat ?old - unat sc else 2 ^ 64 - (unat sc - unat ?old))"
  proof (cases "sc \<le> ?old")
    case True
    then have "(ucast sc :: u64) \<le> ucast ?old"
      by (simp add: word_le_nat_alt unat_ucast_u32)
    then show ?thesis
      using True unfolding d by (simp add: unat_sub unat_ucast_u32)
  next
    case False
    then have lt: "unat ?old < unat sc"
      by (simp add: word_le_nat_alt)
    have "unat (ucast ?old - (ucast sc :: u64)) = unat ?old + 2 ^ 64 - unat sc"
      using lt by (simp add: unat_sub_if_size unat_ucast_u32 word_size)
    moreover have "unat sc < 2 ^ 64"
      using unat_u32_bound [of sc] by simp
    ultimately show ?thesis
      using False lt unfolding d by simp
  qed
  show ?thesis
    using res d u by simp
qed

theorem rescore_in_place_delta_witness:
  "map_of (peerIndices scenario4) 1 = Some 0
   \<and> 0 + 1 < length (slots scenario4)
   \<and> fits_in_place (slots scenario4) 0 8
   \<and> fits_in_place (slots scenario4) 0 3
   \<and> map_sum id (fragmentation \<circ> snd) (rescorePeer 1 8 scenario4) = Inr (5 + 5 - 8)
   \<and> map_sum id (fragmentation \<circ> snd) (rescorePeer 1 3 scenario4) = Inr (5 + 5 - 3)
   \<and> unat (in_place_delta (slots scenario4) 0 8) = 2 ^ 64 - (8 - 5)
   \<and> unat (in_place_delta (slots scenario4) 0 3) = 5 - 3"
proof -
  have h1: "map_of (peerIndices scenario4) 1 = Some 0"
    by (simp add: scenario4_def)
  have h2: "0 + 1 < length (slots scenario4)"
    by (simp add: scenario4_def)
  have h3: "fits_in_place (slots scenario4) 0 8" "fits_in_place (slots scenario4) 0 3"
    by (simp_all add: scenario4_def fits_in_place_def slot_defs)
  have old: "getScore (slots scenario4 ! 0) = 5"
    by (simp add: scenario4_def slot_defs)
  have frag: "fragmentation scenario4 = 5"
    by (simp add: scenario4_def)
  show ?thesis
    using rescore_in_place_delta [OF h1 h2 h3(1)] rescore_in_place_delta [OF h1 h2 h3(2)] h1 h2 h3
    by (auto simp add: old frag)
qed

section \<open>The scenario of a shrinking rescore\<close>

text \<open>
  C6, as stated: after \<^verbatim>\<open>addPeer(1,10); addPeer(2,20); rescorePeer(1,5)\<close> slot 0 is a
  tombstone, a tail slot \<open>(30,5,1)\<close> exists, \<^verbatim>\<open>slotCount\<close> is 35 and
  \<^verbatim>\<open>fragmentation\<close> is 10, and \<^verbatim>\<open>compact\<close> then leaves the slots
  \<open>[(0,20,2),(20,5,1)]\<close>. None of the four holds.
\<close>

theorem scenario4_counterexample:
  "map_sum id slots (run [AddPeer 1 10, AddPeer 2 20, RescorePeer 1 5] empty_manager)
     \<noteq> Inr [\<lparr>start = 0, score = 10, peerid = NO_PEER\<rparr>, \<lparr>start = 10, score = 20, peerid = 2\<rparr>,
            \<lparr>start = 30, score = 5, peerid = 1\<rparr>]
   \<and> map_sum id slotCount (run [AddPeer 1 10, AddPeer 2 20, RescorePeer 1 5] empty_manager) \<noteq> Inr 35
   \<and> map_sum id fragmentation (run [AddPeer 1 10, AddPeer 2 20, RescorePeer 1 5] empty_manager)
       \<noteq> Inr 10
   \<and> map_sum id slots (run [AddPeer 1 10, AddPeer 2 20, RescorePeer 1 5, Compact] empty_manager)
       \<noteq> Inr [\<lparr>start = 0, score = 20, peerid = 2\<rparr>, \<lparr>start = 20, score = 5, peerid = 1\<rparr>]"
  by (simp add: empty_manager_def mutation_defs slot_defs compact_def clearLastElements.simps
      compact_loop.simps NO_PEER_def)

text \<open>
  C6, amended: starting from the empty state, \<^verbatim>\<open>addPeer(1,10); addPeer(2,20);
  rescorePeer(1,5)\<close> rescores slot 0 in place (\<open>0 + 5 \<le> 10\<close>): the slots are
  \<open>[(0,5,1),(10,20,2)]\<close>, no slot is appended, \<^verbatim>\<open>slotCount\<close> stays 30 and
  \<^verbatim>\<open>fragmentation\<close> is 5; a subsequent \<^verbatim>\<open>compact()\<close> returns 5 and leaves the
  slots \<open>[(0,5,1),(5,20,2)]\<close> with \<^verbatim>\<open>slotCount\<close> 25 and \<^verbatim>\<open>fragmentation\<close> 0.
\<close>

theorem scenario4_in_place:
  "run [AddPeer 1 10, AddPeer 2 20, RescorePeer 1 5] empty_manager =
     Inr \<lparr>slots = [\<lparr>start = 0, score = 5, peerid = 1\<rparr>, \<lparr>start = 10, score = 20, peerid = 2\<rparr>],
          slotCount = 30, fragmentation = 5, peerIndices = [(1, 0), (2, 1)]\<rparr>
   \<and> compact \<lparr>slots = [\<lparr>start = 0, score = 5, peerid = 1\<rparr>, \<lparr>start = 10, score = 20, peerid = 2\<rparr>],
          slotCount = 30, fragmentation = 5, peerIndices = [(1, 0), (2, 1)]\<rparr> =
     Inr (5, \<lparr>slots = [\<lparr>start = 0, score = 5, peerid = 1\<rparr>, \<lparr>start = 5, score = 20, peerid = 2\<rparr>],
          slotCount = 25, fragmentation = 0, peerIndices = [(1, 0), (2, 1)]\<rparr>)"
  by (simp add: empty_manager_def mutation_defs slot_defs compact_def clearLastElements.simps
      compact_loop.simps NO_PEER_def)

section \<open>removePeer by case\<close>

text \<open>
  C7: \<^verbatim>\<open>removePeer(p)\<close> returns false and changes nothing when \<open>p\<close> is not in the
  peer index; when \<open>p\<close> owns the last slot, the slot is popped, \<^verbatim>\<open>slotCount\<close> becomes
  the stop of the new last slot (0 when none is left) and \<^verbatim>\<open>fragmentation\<close> is
  unchanged; when \<open>p\<close> owns an interior slot, the slot keeps its start and score and gets the
  peer \<^verbatim>\<open>NO_PEER\<close>, its score is added to \<^verbatim>\<open>fragmentation\<close> and \<^verbatim>\<open>slotCount\<close>
  is unchanged; in both success cases true is returned, the entry of \<open>p\<close> is erased and
  the other entries stay.
\<close>

theorem removePeer_by_case:
  "(map_of (peerIndices pm) p = None \<longrightarrow> removePeer p pm = Inr (False, pm))
   \<and> (map_of (peerIndices pm) p = Some i \<and> i + 1 = length (slots pm) \<longrightarrow>
        (\<exists>pm'. removePeer p pm = Inr (True, pm')
           \<and> slots pm' = butlast (slots pm)
           \<and> slotCount pm' = (if butlast (slots pm) = [] then 0 else getStop (last (butlast (slots pm))))
           \<and> fragmentation pm' = fragmentation pm
           \<and> map_of (peerIndices pm') p = None
           \<and> (\<forall>q. q \<noteq> p \<longrightarrow> map_of (peerIndices pm') q = map_of (peerIndices pm) q)))
   \<and> (map_of (peerIndices pm) p = Some i \<and> i + 1 < length (slots pm) \<longrightarrow>
        (\<exists>pm'. removePeer p pm = Inr (True, pm')
           \<and> slots pm' = (slots pm)[i := \<lparr>start = start (slots pm ! i), score = score (slots pm ! i),
                                          peerid = NO_PEER\<rparr>]
           \<and> slotCount pm' = slotCount pm
           \<and> fragmentation pm' = fragmentation pm + ucast (score (slots pm ! i))
           \<and> map_of (peerIndices pm') p = None
           \<and> (\<forall>q. q \<noteq> p \<longrightarrow> map_of (peerIndices pm') q = map_of (peerIndices pm) q)))"
  by (auto simp add: removePeer_def Let_def slot_defs AList.delete_conv')

theorem removePeer_by_case_witness:
  "map_of (peerIndices scenario1) 40 = None
   \<and> removePeer 40 scenario1 = Inr (False, scenario1)
   \<and> map_of (peerIndices scenario1) 30 = Some 2 \<and> 2 + 1 = length (slots scenario1)
   \<and> map_sum id (\<lambda>r. (fst r, slots (snd r), slotCount (snd r), fragmentation (snd r),
         map_of (peerIndices (snd r)) 30)) (removePeer 30 scenario1) =
       Inr (True, [\<lparr>start = 0, score = 100, peerid = 10\<rparr>, \<lparr>start = 100, score = 200, peerid = 20\<rparr>],
            300, 0, None)
   \<and> map_of (peerIndices scenario1) 20 = Some 1 \<and> 1 + 1 < length (slots scenario1)
   \<and> map_sum id (\<lambda>r. (fst r, slots (snd r), slotCount (snd r), fragmentation (snd r),
         map_of (peerIndices (snd r)) 20)) (removePeer 20 scenario1) =
       Inr (True, [\<lparr>start = 0, score = 100, peerid = 10\<rparr>,
                   \<lparr>start = 100, score = 200, peerid = NO_PEER\<rparr>,
                   \<lparr>start = 300, score = 300, peerid = 30\<rparr>],
            600, 200, None)"
proof -
  have a: "map_of (peerIndices scenario1) 40 = None"
    by (simp add: scenario1_def)
  have b: "map_of (peerIndices scenario1) 30 = Some 2 \<and> 2 + 1 = length (slots scenario1)"
    by (simp add: scenario1_def)
  have c: "map_of (peerIndices scenario1) 20 = Some 1 \<and> 1 + 1 < length (slots scenario1)"
    by (simp add: scenario1_def)
  have sl: "slots scenario1 = [\<lparr>start = 0, score = 100, peerid = 10\<rparr>,
      \<lparr>start = 100, score = 200, peerid = 20\<rparr>, \<lparr>start = 300, score = 300, peerid = 30\<rparr>]"
    and sc: "slotCount scenario1 = 600" and fr: "fragmentation scenario1 = 0"
    by (simp_all add: scenario1_def)
  show ?thesis
    using removePeer_by_case [of scenario1 40 0] removePeer_by_case [of scenario1 30 2]
      removePeer_by_case [of scenario1 20 1] a b c
    by (auto simp add: sl sc fr getStop_def)
qed

section \<open>addPeer on a duplicate id and on a full number line\<close>

text \<open>
  C8, as stated: \<^verbatim>\<open>addPeer\<close> with an id already present reports a
  \<^verbatim>\<open>DuplicatePeer\<close> error and returns control to the caller. After
  \<^verbatim>\<open>addPeer(1,10)\<close> the call \<^verbatim>\<open>addPeer(1,20)\<close> fails the assertion
  \<^verbatim>\<open>assert(inserted.second)\<close>, which aborts the process.
\<close>

theorem addPeer_duplicate_counterexample:
  "run [AddPeer 1 10] empty_manager =
     Inr \<lparr>slots = [\<lparr>start = 0, score = 10, peerid = 1\<rparr>], slotCount = 10, fragmentation = 0,
          peerIndices = [(1, 0)]\<rparr>
   \<and> addPeer 1 20 \<lparr>slots = [\<lparr>start = 0, score = 10, peerid = 1\<rparr>], slotCount = 10,
          fragmentation = 0, peerIndices = [(1, 0)]\<rparr> = Inl AssertionFailure"
  by (simp add: empty_manager_def mutation_defs)

text \<open>
  C8, amended: for every state and every peer id \<open>p\<close> already present in the peer index,
  \<^verbatim>\<open>addPeer(p, score)\<close> fails its assertion and the process aborts; nothing is reported
  to the caller.
\<close>

theorem addPeer_duplicate_aborts:
  "p \<in> fst ` set (peerIndices pm) \<Longrightarrow> addPeer p sc pm = Inl AssertionFailure"
proof -
  assume "p \<in> fst ` set (peerIndices pm)"
  then have "map_of (peerIndices pm) p \<noteq> None"
    by (simp add: map_of_eq_None_iff)
  then show ?thesis
    by (auto simp add: addPeer_def emplace_def)
qed

theorem addPeer_duplicate_aborts_witness:
  "20 \<in> fst ` set (peerIndices scenario1) \<and> addPeer 20 7 scenario1 = Inl AssertionFailure"
proof -
  have "20 \<in> fst ` set (peerIndices scenario1)"
    by (simp add: scenario1_def)
  then show ?thesis
    using addPeer_duplicate_aborts [of 20 scenario1 7] by simp
qed

text \<open>
  C9, as stated: when \<^verbatim>\<open>slotCount + score\<close> exceeds \<open>2^64\<close>, \<^verbatim>\<open>addPeer\<close> fails
  with an overflow error and leaves the state unchanged. On a number line that ends at
  \<open>2^64 - 1\<close>, \<^verbatim>\<open>addPeer(3,10)\<close> succeeds, appends the slot and wraps
  \<^verbatim>\<open>slotCount\<close> around to 9.
\<close>

theorem addPeer_overflow_counterexample:
  "verify full_line
   \<and> 2 ^ 64 < unat (slotCount full_line) + unat (10 :: u32)
   \<and> addPeer 3 10 full_line =
     Inr (3, \<lparr>slots = [\<lparr>start = 0, score = 1, peerid = 1\<rparr>,
                       \<lparr>start = 0xFFFFFFFFFFFFFFFA, score = 5, peerid = 2\<rparr>,
                       \<lparr>start = 0xFFFFFFFFFFFFFFFF, score = 10, peerid = 3\<rparr>],
              slotCount = 9, fragmentation = 0, peerIndices = [(1, 0), (2, 1), (3, 2)]\<rparr>)"
  by (simp add: mutation_defs full_line_def verify_def verify_index_def slot_defs NO_PEER_def)

text \<open>
  C9, amended: \<^verbatim>\<open>addPeer\<close> makes no overflow check. For every state and every peer id
  not in the peer index it succeeds, whatever the score: it appends the slot
  \<open>(slotCount, score, p)\<close>, enters \<open>p\<close> in the index at the new position and sets
  \<^verbatim>\<open>slotCount\<close> to \<open>(slotCount + score) mod 2^64\<close>.
\<close>

theorem addPeer_wraps:
  "map_of (peerIndices pm) p = None \<Longrightarrow>
   addPeer p sc pm =
     Inr (p, pm\<lparr>slots := slots pm @ [\<lparr>start = slotCount pm, score = sc, peerid = p\<rparr>],
                slotCount := slotCount pm + ucast sc,
                peerIndices := peerIndices pm @ [(p, length (slots pm))]\<rparr>)
   \<and> unat (slotCount pm + ucast sc) = (unat (slotCount pm) + unat sc) mod 2 ^ 64"
  by (simp add: addPeer_def emplace_def Let_def unat_word_ariths unat_ucast_u32)

theorem addPeer_wraps_witness:
  "map_of (peerIndices full_line) 3 = None
   \<and> 2 ^ 64 < unat (slotCount full_line) + unat (10 :: u32)
   \<and> map_sum id (slotCount \<circ> snd) (addPeer 3 10 full_line) = Inr 9
   \<and> map_sum id (length \<circ> slots \<circ> snd) (addPeer 3 10 full_line) = Inr 3"
proof -
  have "map_of (peerIndices full_line) 3 = None"
    by (simp add: full_line_def)
  then show ?thesis
    using addPeer_wraps [of full_line 3 10] by (simp add: full_line_def)
qed

section \<open>Safety and correctness of selectPeerImpl\<close>

lemma size_sub_le: "b \<le> a \<Longrightarrow> size_sub a b = a - b"
  by (simp add: size_sub_def)

lemma probe_quotient:
  fixes slot bottom top' :: u64
  assumes "bottom \<le> slot" "slot < top'" "0 < n" "n < 2 ^ 64"
  shows "unat ((slot - bottom) * of_nat n div (top' - bottom)) < n"
proof -
  let ?s = "unat (slot - bottom)" and ?d = "unat (top' - bottom)"
  have bt: "bottom \<le> top'" using assms by simp
  have s: "?s = unat slot - unat bottom" using assms(1) by (simp add: unat_sub)
  have d: "?d = unat top' - unat bottom" using bt by (simp add: unat_sub)
  have "unat bottom \<le> unat slot" "unat slot < unat top'"
    using assms by (simp_all add: word_le_nat_alt word_less_nat_alt)
  then have sd: "?s < ?d" unfolding s d by simp
  have n: "unat (of_nat n :: u64) = n"
    using assms(4) by (simp add: unat_of_nat)
  have "unat ((slot - bottom) * of_nat n) = (?s * n) mod 2 ^ 64"
    by (simp add: unat_word_ariths n)
  also have "\<dots> \<le> ?s * n" by simp
  also have "\<dots> < ?d * n" using sd assms(3) by simp
  finally have "unat ((slot - bottom) * of_nat n) < n * ?d" by (simp add: mult.commute)
  then have "unat ((slot - bottom) * of_nat n) div ?d < n"
    using sd by (simp add: less_mult_imp_div_less)
  then show ?thesis by (simp add: unat_div)
qed

lemma probe_in_window:
  assumes "bottom \<le> slot" "slot < top'" "beginI < endI" "endI < 2 ^ 64"
  shows "beginI \<le> probe beginI endI bottom top' slot \<and> probe beginI endI bottom top' slot < endI"
proof -
  have "unat ((slot - bottom) * of_nat (endI - beginI) div (top' - bottom)) < endI - beginI"
    using assms by (intro probe_quotient) auto
  then show ?thesis
    using assms by (simp add: probe_def size_sub_le size_add_def)
qed

lemma linear_search_returns:
  "endI \<le> length sl \<Longrightarrow> \<exists>p. linear_search sl slot i endI = Inr p"
proof (induction sl slot i endI rule: linear_search.induct)
  case (1 sl slot i endI)
  then show ?case
    by (subst linear_search.simps) auto
qed

lemma interpolation_search_returns:
  "beginI \<le> endI \<Longrightarrow> endI \<le> length sl \<Longrightarrow> length sl < 2 ^ 64 \<Longrightarrow>
   \<exists>p. interpolation_search sl slot beginI endI bottom top' = Inr p"
proof (induction sl slot beginI endI bottom top' rule: interpolation_search.induct)
  case (1 sl slot beginI endI bottom top')
  show ?case
  proof (cases "size_sub endI beginI > 8")
    case False
    then show ?thesis
      using linear_search_returns [OF "1.prems"(2)]
      by (subst interpolation_search.simps) simp
  next
    case True
    then have lt: "beginI < endI" using "1.prems" by (simp add: size_sub_le)
    show ?thesis
    proof (cases "slot < bottom \<or> slot \<ge> top'")
      case True
      then show ?thesis using \<open>size_sub endI beginI > 8\<close>
        by (subst interpolation_search.simps) simp
    next
      case False
      then have g: "bottom \<le> slot" "slot < top'" by auto
      then have nz: "top' - bottom \<noteq> 0" by auto
      define i where "i = probe beginI endI bottom top' slot"
      have iw: "beginI \<le> i" "i < endI"
        using probe_in_window [OF g lt] "1.prems" by (auto simp: i_def)
      then have il: "i < length sl" using "1.prems" by simp
      note IH1 = "1.IH"(1) [OF True False nz i_def]
      note IH2 = "1.IH"(2) [OF True False nz i_def]
      show ?thesis
        using True False nz iw il "1.prems" IH1 IH2
        by (subst interpolation_search.simps) (auto simp: Let_def i_def [symmetric])
    qed
  qed
qed


lemma slots_monotone_sorted:
  assumes "slots_monotone sl"
  shows "sorted_wrt (\<lambda>a b. stopN a \<le> unat (getStart b)) sl"
proof -
  have "transp (\<lambda>a b. stopN a \<le> unat (getStart b))"
    by (auto simp: transp_def stopN_def getStart_def)
  then show ?thesis
    using assms by (simp add: slots_monotone_def successively_conv_sorted_wrt)
qed

lemma slots_monotone_nth:
  "slots_monotone sl \<Longrightarrow> j < k \<Longrightarrow> k < length sl \<Longrightarrow> stopN (sl ! j) \<le> unat (getStart (sl ! k))"
  using slots_monotone_sorted [of sl] by (simp add: sorted_wrt_iff_nth_less)

lemma slots_monotone_no_wrap:
  assumes "slots_monotone sl" "j < length sl"
  shows "stopN (sl ! j) < 2 ^ 64"
proof (cases "j + 1 = length sl")
  case True
  then have ne: "sl \<noteq> []"
    using assms(2) by auto
  have "length sl - 1 = j"
    using True by simp
  then have "last sl = sl ! j"
    using ne by (simp add: last_conv_nth)
  then show ?thesis using assms(1) ne by (simp add: slots_monotone_def)
next
  case False
  then have "stopN (sl ! j) \<le> unat (getStart (sl ! (j + 1)))"
    using assms by (intro slots_monotone_nth) auto
  then show ?thesis
    using unat_u64_bound [of "getStart (sl ! (j + 1))"] by simp
qed

lemma unat_getStop: "stopN s < 2 ^ 64 \<Longrightarrow> unat (getStop s) = stopN s"
  by (simp add: getStop_def stopN_def unat_add_lem [THEN iffD1] unat_ucast_u32)

lemma contains_nat:
  "stopN s < 2 ^ 64 \<Longrightarrow> contains s x \<longleftrightarrow> unat (getStart s) \<le> unat x \<and> unat x < stopN s"
  by (simp add: contains_def word_le_nat_alt word_less_nat_alt unat_getStop)

lemma precedes_nat: "stopN s < 2 ^ 64 \<Longrightarrow> precedes s x \<longleftrightarrow> stopN s \<le> unat x"
  by (simp add: precedes_def word_le_nat_alt unat_getStop)

lemma follows_nat: "follows s x \<longleftrightarrow> unat x < unat (getStart s)"
  by (simp add: follows_def word_less_nat_alt)

lemma start_le_stopN: "unat (getStart s) \<le> stopN s"
  by (simp add: stopN_def getStart_def)

lemma contains_unique:
  assumes "slots_monotone sl" "j < length sl" "k < length sl" "contains (sl ! j) x" "contains (sl ! k) x"
  shows "j = k"
proof (rule ccontr)
  assume ne: "j \<noteq> k"
  have cj: "unat (getStart (sl ! j)) \<le> unat x \<and> unat x < stopN (sl ! j)"
    using contains_nat [OF slots_monotone_no_wrap [OF assms(1,2)]] assms(4) by simp
  have ck: "unat (getStart (sl ! k)) \<le> unat x \<and> unat x < stopN (sl ! k)"
    using contains_nat [OF slots_monotone_no_wrap [OF assms(1,3)]] assms(5) by simp
  show False
  proof (cases "j < k")
    case True
    then show False using slots_monotone_nth [OF assms(1) True assms(3)] cj ck by simp
  next
    case False
    then have "k < j" using ne by simp
    then show False using slots_monotone_nth [OF assms(1) _ assms(2), of k] cj ck by simp
  qed
qed

lemma before_precedes:
  assumes "slots_monotone sl" "i < length sl" "precedes (sl ! i) x" "j \<le> i"
  shows "\<not> contains (sl ! j) x"
proof -
  have "stopN (sl ! i) \<le> unat x"
    using precedes_nat [OF slots_monotone_no_wrap [OF assms(1,2)]] assms(3) by simp
  moreover have "stopN (sl ! j) \<le> stopN (sl ! i)"
  proof (cases "j = i")
    case False
    then have "stopN (sl ! j) \<le> unat (getStart (sl ! i))"
      using assms by (intro slots_monotone_nth) auto
    then show ?thesis using start_le_stopN [of "sl ! i"] by simp
  qed simp
  moreover have jl: "j < length sl" using assms by simp
  ultimately show ?thesis
    using contains_nat [OF slots_monotone_no_wrap [OF assms(1) jl]] by simp
qed

lemma after_follows:
  assumes "slots_monotone sl" "i \<le> j" "j < length sl" "unat x < unat (getStart (sl ! i))"
  shows "\<not> contains (sl ! j) x"
proof -
  have "unat (getStart (sl ! i)) \<le> unat (getStart (sl ! j))"
  proof (cases "j = i")
    case False
    then have "stopN (sl ! i) \<le> unat (getStart (sl ! j))"
      using assms by (intro slots_monotone_nth) auto
    then show ?thesis using start_le_stopN [of "sl ! i"] by simp
  qed simp
  then show ?thesis
    using contains_nat [OF slots_monotone_no_wrap [OF assms(1,3)]] assms(4) by simp
qed

lemma linear_search_selects:
  assumes "endI \<le> length sl"
    and "\<forall>j < length sl. contains (sl ! j) x \<longrightarrow> i \<le> j \<and> j < endI"
  shows "\<exists>p. linear_search sl x i endI = Inr p \<and> selects sl x p"
  using assms
proof (induction sl x i endI rule: linear_search.induct)
  case (1 sl x i endI)
  show ?case
  proof (cases "i < endI")
    case False
    then have "\<forall>j < length sl. \<not> contains (sl ! j) x"
      using "1.prems"(2) by fastforce
    then show ?thesis
      using False by (subst linear_search.simps) (simp add: selects_def)
  next
    case True
    then have il: "i < length sl" using "1.prems"(1) by simp
    show ?thesis
    proof (cases "contains (sl ! i) x")
      case True
      then show ?thesis
        using \<open>i < endI\<close> il by (subst linear_search.simps) (auto simp add: selects_def)
    next
      case False
      have "\<forall>j < length sl. contains (sl ! j) x \<longrightarrow> i + 1 \<le> j \<and> j < endI"
      proof (intro allI impI)
        fix j assume "j < length sl" "contains (sl ! j) x"
        then have "i \<le> j \<and> j < endI" "j \<noteq> i"
          using "1.prems"(2) False by auto
        then show "i + 1 \<le> j \<and> j < endI" by simp
      qed
      then have "\<exists>p. linear_search sl x (i + 1) endI = Inr p \<and> selects sl x p"
        using "1.IH" True il False "1.prems"(1) by simp
      then show ?thesis
        using True il False by (subst linear_search.simps) simp
    qed
  qed
qed

lemma interpolation_search_selects:
  assumes "slots_monotone sl" "length sl < 2 ^ 64"
    and "beginI \<le> endI" "endI \<le> length sl"
    and "\<forall>j < length sl. contains (sl ! j) x \<longrightarrow> beginI \<le> j \<and> j < endI"
    and "beginI < endI \<longrightarrow> bottom \<le> getStart (sl ! beginI)"
    and "x < top'"
  shows "\<exists>p. interpolation_search sl x beginI endI bottom top' = Inr p \<and> selects sl x p"
  using assms
proof (induction sl x beginI endI bottom top' rule: interpolation_search.induct)
  case (1 sl x beginI endI bottom top')
  note mono = "1.prems"(1) and win = "1.prems"(5)
  show ?case
  proof (cases "size_sub endI beginI > 8")
    case False
    then show ?thesis
      using linear_search_selects [OF "1.prems"(4) win]
      by (subst interpolation_search.simps) simp
  next
    case True
    then have lt: "beginI < endI" using "1.prems" by (simp add: size_sub_le)
    show ?thesis
    proof (cases "x < bottom \<or> x \<ge> top'")
      case out: True
      then have xb: "unat x < unat (getStart (sl ! beginI))"
        using "1.prems"(6,7) lt by (auto simp: word_le_nat_alt word_less_nat_alt)
      have "\<forall>j < length sl. \<not> contains (sl ! j) x"
      proof (intro allI impI notI)
        fix j assume j: "j < length sl" "contains (sl ! j) x"
        then have "beginI \<le> j" using win by simp
        then show False using after_follows [OF mono _ j(1) xb] j(2) by simp
      qed
      then show ?thesis using True out
        by (subst interpolation_search.simps) (simp add: selects_def)
    next
      case False
      then have g: "bottom \<le> x" "x < top'" by auto
      then have nz: "top' - bottom \<noteq> 0" by auto
      define i where "i = probe beginI endI bottom top' x"
      have iw: "beginI \<le> i" "i < endI"
        using probe_in_window [OF g lt] "1.prems" by (auto simp: i_def)
      then have il: "i < length sl" using "1.prems" by simp
      have iw': "\<not> \<not> (beginI \<le> i \<and> i < endI)" "\<not> \<not> i < length sl" using iw il by auto
      show ?thesis
      proof (cases "contains (sl ! i) x")
        case True
        then show ?thesis
          using \<open>size_sub endI beginI > 8\<close> False nz iw il
          by (subst interpolation_search.simps) (auto simp: Let_def i_def [symmetric] selects_def)
      next
        case nc: False
        show ?thesis
        proof (cases "precedes (sl ! i) x")
          case pr: True
          have win': "\<forall>j < length sl. contains (sl ! j) x \<longrightarrow> i + 1 \<le> j \<and> j < endI"
          proof (intro allI impI)
            fix j assume j: "j < length sl" "contains (sl ! j) x"
            then have "\<not> j \<le> i" using before_precedes [OF mono il pr] by blast
            then show "i + 1 \<le> j \<and> j < endI" using win j by simp
          qed
          show ?thesis
          proof (cases "i + 1 \<ge> endI")
            case True
            then have "\<forall>j < length sl. \<not> contains (sl ! j) x" using win' by fastforce
            then show ?thesis
              using \<open>size_sub endI beginI > 8\<close> False nz iw il nc pr True
              by (subst interpolation_search.simps) (auto simp: Let_def i_def [symmetric] selects_def)
          next
            case ne: False
            then have il1: "i + 1 < length sl" using "1.prems"(4) by simp
            have "\<exists>p. interpolation_search sl x (i + 1) endI (getStart (sl ! (i + 1))) top' = Inr p
                \<and> selects sl x p"
              using "1.IH"(1) [OF True False nz i_def iw'(1) iw'(2) nc pr ne _ mono "1.prems"(2)]
                il1 ne "1.prems"(4,7) win' by simp
            then show ?thesis
              using \<open>size_sub endI beginI > 8\<close> False nz iw il nc pr ne il1
              by (subst interpolation_search.simps) (auto simp: Let_def i_def [symmetric])
          qed
        next
          case np: False
          then have fo: "follows (sl ! i) x"
            using nc by (auto simp: contains_def precedes_def follows_def)
          then have xi: "unat x < unat (getStart (sl ! i))" by (simp add: follows_nat)
          have win': "\<forall>j < length sl. contains (sl ! j) x \<longrightarrow> beginI \<le> j \<and> j < i"
          proof (intro allI impI)
            fix j assume j: "j < length sl" "contains (sl ! j) x"
            then have "\<not> i \<le> j" using after_follows [OF mono _ j(1) xi] by blast
            then show "beginI \<le> j \<and> j < i" using win j by simp
          qed
          have "\<exists>p. interpolation_search sl x beginI i bottom (getStart (sl ! i)) = Inr p
              \<and> selects sl x p"
            using "1.IH"(2) [OF True False nz i_def iw'(1) iw'(2) nc np fo mono "1.prems"(2)]
              iw il "1.prems"(6) win' fo by (simp add: follows_def)
          then show ?thesis
            using \<open>size_sub endI beginI > 8\<close> False nz iw il nc np fo
            by (subst interpolation_search.simps) (auto simp: Let_def i_def [symmetric])
        qed
      qed
    qed
  qed
qed

text \<open>
  C10: for every call of \<^verbatim>\<open>selectPeerImpl\<close> with \<open>slot \<le> max\<close> (on any slot array, so
  in particular on one that satisfies the invariants), the call returns a peer id: the
  division is never by zero, the assertion \<^verbatim>\<open>begin <= i && i < end\<close> never fails and no
  access is out of bounds. Moreover, in every window with \<open>begin < end \<le> size\<close> and
  \<open>bottom \<le> slot < top\<close>, which is what the guard of the loop leaves, \<open>top - bottom\<close> is
  not zero and the probe \<open>i\<close>, computed with the 64-bit product and quotient, satisfies
  \<open>begin \<le> i < end\<close>, also when the product wraps around.
\<close>

theorem selectPeerImpl_safe:
  assumes "slot \<le> max'" and "length sl < 2 ^ 64"
  shows "(\<exists>p. selectPeerImpl sl slot max' = Inr p)
    \<and> (\<forall>beginI endI bottom top'.
          beginI < endI \<and> endI \<le> length sl \<and> bottom \<le> slot \<and> slot < top' \<longrightarrow>
            top' - bottom \<noteq> 0
            \<and> beginI \<le> probe beginI endI bottom top' slot
            \<and> probe beginI endI bottom top' slot < endI
            \<and> probe beginI endI bottom top' slot < length sl)"
proof (intro conjI allI impI)
  show "\<exists>p. selectPeerImpl sl slot max' = Inr p"
    using assms interpolation_search_returns [of 0 "length sl" sl slot 0 max']
    by (simp add: selectPeerImpl_def)
next
  fix beginI endI bottom top'
  assume w: "beginI < endI \<and> endI \<le> length sl \<and> bottom \<le> slot \<and> slot < top'"
  then show "top' - bottom \<noteq> 0"
    by auto
  have "endI < 2 ^ 64"
    using w assms(2) by simp
  then have p: "beginI \<le> probe beginI endI bottom top' slot
      \<and> probe beginI endI bottom top' slot < endI"
    using w by (intro probe_in_window) auto
  then show "beginI \<le> probe beginI endI bottom top' slot"
    and "probe beginI endI bottom top' slot < endI"
    and "probe beginI endI bottom top' slot < length sl"
    using w by auto
qed

theorem selectPeerImpl_safe_witness:
  "(0x8000000000000000 :: u64) \<le> 0x8000000000000001
   \<and> length wide_slots < 2 ^ 64
   \<and> selectPeerImpl wide_slots 0x8000000000000000 0x8000000000000001 = Inr 9
   \<and> 2 ^ 64 \<le> unat (0x8000000000000000 :: u64) * 9
   \<and> probe 0 9 0 0x8000000000000001 0x8000000000000000 = 0"
proof -
  have h: "(0x8000000000000000 :: u64) \<le> 0x8000000000000001" "length wide_slots < 2 ^ 64"
    by (simp_all add: wide_slots_def)
  have e: "selectPeerImpl wide_slots 0x8000000000000000 0x8000000000000001 = Inr 9"
    by (simp add: search_defs wide_slots_def NO_PEER_def)
  have p: "probe 0 9 0 0x8000000000000001 0x8000000000000000 = 0"
    by (simp add: search_defs)
  show ?thesis
    using selectPeerImpl_safe [OF h] h e p by simp
qed

text \<open>
  C1: for every slot array that is monotone and non-overlapping (gaps allowed, stops
  without wrap-around) and every offset \<open>x < max\<close>, in particular \<open>max = slotCount\<close>,
  \<^verbatim>\<open>selectPeerImpl(slots, x, max)\<close> returns the peer field of the slot that contains
  \<open>x\<close> when there is one (\<^verbatim>\<open>NO_PEER\<close> when that slot is a tombstone) and
  \<^verbatim>\<open>NO_PEER\<close> when no slot contains \<open>x\<close>; at most one slot contains \<open>x\<close>. So no
  peer of a slot that does not contain \<open>x\<close> is ever returned.
\<close>

theorem selectPeerImpl_correct:
  assumes "slots_monotone sl" and "length sl < 2 ^ 64" and "x < max'"
  shows "(\<forall>j < length sl. contains (sl ! j) x \<longrightarrow> selectPeerImpl sl x max' = Inr (getPeerId (sl ! j)))
    \<and> ((\<forall>j < length sl. \<not> contains (sl ! j) x) \<longrightarrow> selectPeerImpl sl x max' = Inr NO_PEER)
    \<and> (\<forall>j k. j < length sl \<and> k < length sl \<and> contains (sl ! j) x \<and> contains (sl ! k) x \<longrightarrow> j = k)"
proof -
  have "\<exists>p. interpolation_search sl x 0 (length sl) 0 max' = Inr p \<and> selects sl x p"
    using assms by (intro interpolation_search_selects) auto
  moreover have "x \<le> max'"
    using assms(3) by simp
  ultimately obtain p where p: "selectPeerImpl sl x max' = Inr p" "selects sl x p"
    by (auto simp add: selectPeerImpl_def)
  have uniq: "\<forall>j k. j < length sl \<and> k < length sl \<and> contains (sl ! j) x \<and> contains (sl ! k) x \<longrightarrow> j = k"
    using contains_unique [OF assms(1)] by blast
  have "\<forall>j < length sl. contains (sl ! j) x \<longrightarrow> p = getPeerId (sl ! j)"
  proof (intro allI impI)
    fix j assume j: "j < length sl" "contains (sl ! j) x"
    then obtain k where k: "k < length sl" "contains (sl ! k) x" "p = getPeerId (sl ! k)"
      using p(2) by (auto simp add: selects_def)
    then have "k = j"
      using uniq j by blast
    then show "p = getPeerId (sl ! j)"
      using k by simp
  qed
  moreover have "(\<forall>j < length sl. \<not> contains (sl ! j) x) \<longrightarrow> p = NO_PEER"
    using p(2) by (auto simp add: selects_def)
  ultimately show ?thesis
    using p(1) uniq by simp
qed

theorem selectPeerImpl_correct_witness:
  "slots_monotone ten_slots \<and> length ten_slots < 2 ^ 64
   \<and> (57 :: u64) < 100 \<and> contains (ten_slots ! 5) 57
   \<and> selectPeerImpl ten_slots 57 100 = Inr (getPeerId (ten_slots ! 5))
   \<and> (15 :: u64) < 100 \<and> contains (ten_slots ! 1) 15
   \<and> selectPeerImpl ten_slots 15 100 = Inr NO_PEER
   \<and> (27 :: u64) < 100 \<and> list_all (\<lambda>s. \<not> contains s 27) ten_slots
   \<and> selectPeerImpl ten_slots 27 100 = Inr NO_PEER"
proof -
  have m: "slots_monotone ten_slots"
    by (simp add: slots_monotone_def ten_slots_def stopN_def getStart_def)
  have l: "length ten_slots < 2 ^ 64"
    by (simp add: ten_slots_def)
  have c: "contains (ten_slots ! 5) 57" "contains (ten_slots ! 1) 15"
    "getPeerId (ten_slots ! 1) = NO_PEER"
    by (simp_all add: ten_slots_def contains_def slot_defs)
  have g: "list_all (\<lambda>s. \<not> contains s 27) ten_slots"
    by (simp add: ten_slots_def contains_def slot_defs)
  then have g': "\<forall>j < length ten_slots. \<not> contains (ten_slots ! j) 27"
    by (simp add: list_all_length)
  have n: "5 < length ten_slots" "1 < length ten_slots"
    by (simp_all add: ten_slots_def)
  have x: "(57 :: u64) < 100" "(15 :: u64) < 100" "(27 :: u64) < 100"
    by simp_all
  have "selectPeerImpl ten_slots 57 100 = Inr (getPeerId (ten_slots ! 5))"
    using selectPeerImpl_correct [OF m l x(1)] c(1) n(1) by blast
  moreover have "selectPeerImpl ten_slots 15 100 = Inr (getPeerId (ten_slots ! 1))"
    using selectPeerImpl_correct [OF m l x(2)] c(2) n(2) by blast
  moreover have "selectPeerImpl ten_slots 27 100 = Inr NO_PEER"
    using selectPeerImpl_correct [OF m l x(3)] g' by blast
  ultimately show ?thesis
    using m l c g by simp
qed

section \<open>The invariants hold after every mutation\<close>

lemma verify_slots_iff:
  "verify_slots idx ss i prev \<longleftrightarrow>
     (ss \<noteq> [] \<longrightarrow> prev \<le> getStart (hd ss))
     \<and> successively (\<lambda>a b. getStop a \<le> getStart b) ss
     \<and> (\<forall>k < length ss. getPeerId (ss ! k) \<noteq> NO_PEER \<longrightarrow> map_of idx (getPeerId (ss ! k)) = Some (i + k))"
proof (induction ss arbitrary: i prev)
  case Nil
  then show ?case by simp
next
  case (Cons s ss)
  let ?live = "\<lambda>xs j k. getPeerId (xs ! k) \<noteq> NO_PEER \<longrightarrow> map_of idx (getPeerId (xs ! k)) = Some (j + k)"
  have all_split: "(\<forall>k < length (s # ss). ?live (s # ss) i k)
      \<longleftrightarrow> ?live (s # ss) i 0 \<and> (\<forall>k < length ss. ?live ss (i + 1) k)"
    by (auto simp: less_Suc_eq_0_disj)
  have tail: "verify_slots idx ss (i + 1) (getStop s) \<longleftrightarrow>
      (ss \<noteq> [] \<longrightarrow> getStop s \<le> getStart (hd ss))
      \<and> successively (\<lambda>a b. getStop a \<le> getStart b) ss
      \<and> (\<forall>k < length ss. ?live ss (i + 1) k)"
    by (rule Cons.IH)
  have "verify_slots idx (s # ss) i prev \<longleftrightarrow>
      prev \<le> getStart s \<and> ?live (s # ss) i 0 \<and> verify_slots idx ss (i + 1) (getStop s)"
    by (auto simp add: not_less split: option.splits)
  also have "\<dots> \<longleftrightarrow> prev \<le> getStart s \<and> ?live (s # ss) i 0
      \<and> (ss \<noteq> [] \<longrightarrow> getStop s \<le> getStart (hd ss))
      \<and> successively (\<lambda>a b. getStop a \<le> getStart b) ss
      \<and> (\<forall>k < length ss. ?live ss (i + 1) k)"
    unfolding tail by simp
  also have "\<dots> \<longleftrightarrow> prev \<le> getStart s
      \<and> successively (\<lambda>a b. getStop a \<le> getStart b) (s # ss)
      \<and> (\<forall>k < length (s # ss). ?live (s # ss) i k)"
    unfolding all_split successively_Cons [of _ s ss] by auto
  finally show ?case by simp
qed

lemma verified_verify: "verified pm \<Longrightarrow> verify pm"
proof -
  assume v: "verified pm"
  then have d: "distinct (map fst (peerIndices pm))"
    by (simp add: verified_def index_ok_def)
  have "verify_index (slots pm) (peerIndices pm)"
    unfolding verify_index_def list_all_iff
  proof (intro ballI)
    fix e assume e: "e \<in> set (peerIndices pm)"
    obtain p i where pi: "e = (p, i)" by (cases e)
    then have "map_of (peerIndices pm) p = Some i"
      using d e by simp
    then have "i < length (slots pm) \<and> getPeerId (slots pm ! i) = p"
      using v unfolding verified_def index_ok_def by blast
    then show "case e of (p, i) \<Rightarrow> \<not> (length (slots pm) \<le> i \<or> getPeerId (slots pm ! i) \<noteq> p)"
      using pi by simp
  qed
  moreover have "verify_slots (peerIndices pm) (slots pm) 0 0"
    using v by (simp add: verify_slots_iff verified_def index_ok_def line_wrapped_def)
  ultimately show ?thesis
    by (simp add: verify_def)
qed


lemma index_ok_bound: "index_ok sl idx \<Longrightarrow> map_of idx p = Some i \<Longrightarrow> i < length sl"
  unfolding index_ok_def by blast

lemma index_ok_peer: "index_ok sl idx \<Longrightarrow> map_of idx p = Some i \<Longrightarrow> getPeerId (sl ! i) = p"
  unfolding index_ok_def by blast

lemma index_ok_append:
  assumes "index_ok sl idx" "map_of idx p = None"
  shows "index_ok (sl @ [\<lparr>start = st, score = sc, peerid = p\<rparr>]) (idx @ [(p, length sl)])"
  unfolding index_ok_def
proof (intro conjI allI impI)
  show "distinct (map fst (idx @ [(p, length sl)]))"
    using assms by (auto simp add: index_ok_def map_of_eq_None_iff)
next
  fix q i assume "map_of (idx @ [(p, length sl)]) q = Some i"
  then have "map_of idx q = Some i \<or> (q = p \<and> i = length sl)"
    by (auto simp add: map_add_Some_iff split: if_splits)
  then have "(i < length sl \<and> getPeerId (sl ! i) = q) \<or> (q = p \<and> i = length sl)"
    using index_ok_bound [OF assms(1)] index_ok_peer [OF assms(1)] by blast
  then show "i < length (sl @ [\<lparr>start = st, score = sc, peerid = p\<rparr>])"
    and "getPeerId ((sl @ [\<lparr>start = st, score = sc, peerid = p\<rparr>]) ! i) = q"
    by (auto simp add: nth_append getPeerId_def)
next
  fix i assume i: "i < length (sl @ [\<lparr>start = st, score = sc, peerid = p\<rparr>])"
    and live: "getPeerId ((sl @ [\<lparr>start = st, score = sc, peerid = p\<rparr>]) ! i) \<noteq> NO_PEER"
  show "map_of (idx @ [(p, length sl)]) (getPeerId ((sl @ [\<lparr>start = st, score = sc, peerid = p\<rparr>]) ! i)) = Some i"
  proof (cases "i < length sl")
    case True
    then have "map_of idx (getPeerId (sl ! i)) = Some i"
      using assms(1) live by (simp add: index_ok_def nth_append)
    then show ?thesis using True by (simp add: nth_append map_add_Some_iff)
  next
    case False
    then have "i = length sl" using i by simp
    then show ?thesis using assms(2) by (simp add: getPeerId_def map_add_Some_iff)
  qed
qed

lemma index_ok_delete_other:
  assumes "index_ok sl idx" "map_of idx p = Some i" "j < length sl" "j \<noteq> i"
    "getPeerId (sl ! j) \<noteq> NO_PEER"
  shows "map_of (AList.delete p idx) (getPeerId (sl ! j)) = Some j"
proof -
  have j: "map_of idx (getPeerId (sl ! j)) = Some j"
    using assms unfolding index_ok_def by blast
  then have "getPeerId (sl ! j) \<noteq> p"
    using assms(2,4) by auto
  then show ?thesis
    using j by (simp add: AList.delete_conv')
qed

lemma index_ok_pop:
  assumes "index_ok sl idx" "map_of idx p = Some i" "i + 1 = length sl"
  shows "index_ok (butlast sl) (AList.delete p idx)"
  unfolding index_ok_def
proof (intro conjI allI impI)
  show "distinct (map fst (AList.delete p idx))"
    using assms(1) by (simp add: index_ok_def distinct_delete)
next
  fix q j assume "map_of (AList.delete p idx) q = Some j"
  then have q: "q \<noteq> p" "map_of idx q = Some j"
    by (auto simp add: AList.delete_conv' split: if_splits)
  then have j: "j < length sl" "getPeerId (sl ! j) = q"
    using assms(1) unfolding index_ok_def by blast+
  have "getPeerId (sl ! i) = p"
    using assms(1,2) by (rule index_ok_peer)
  then have "j \<noteq> i" using j q by auto
  then show "j < length (butlast sl)" and "getPeerId (butlast sl ! j) = q"
    using j assms(3) by (auto simp add: nth_butlast)
next
  fix j assume "j < length (butlast sl)" "getPeerId (butlast sl ! j) \<noteq> NO_PEER"
  then have "j < length sl" "j \<noteq> i" "getPeerId (sl ! j) \<noteq> NO_PEER" "butlast sl ! j = sl ! j"
    using assms(3) by (auto simp add: nth_butlast)
  then show "map_of (AList.delete p idx) (getPeerId (butlast sl ! j)) = Some j"
    using index_ok_delete_other [OF assms(1,2)] by simp
qed

lemma index_ok_tombstone:
  assumes "index_ok sl idx" "map_of idx p = Some i"
  shows "index_ok (sl[i := withPeerId (sl ! i) NO_PEER]) (AList.delete p idx)"
  unfolding index_ok_def
proof (intro conjI allI impI)
  show "distinct (map fst (AList.delete p idx))"
    using assms(1) by (simp add: index_ok_def distinct_delete)
next
  fix q j assume "map_of (AList.delete p idx) q = Some j"
  then have q: "q \<noteq> p" "map_of idx q = Some j"
    by (auto simp add: AList.delete_conv' split: if_splits)
  then have j: "j < length sl" "getPeerId (sl ! j) = q"
    using assms(1) unfolding index_ok_def by blast+
  have "getPeerId (sl ! i) = p"
    using assms(1,2) by (rule index_ok_peer)
  then have "j \<noteq> i" using j q by auto
  then show "j < length (sl[i := withPeerId (sl ! i) NO_PEER])"
    and "getPeerId (sl[i := withPeerId (sl ! i) NO_PEER] ! j) = q"
    using j by auto
next
  fix j assume j: "j < length (sl[i := withPeerId (sl ! i) NO_PEER])"
    "getPeerId (sl[i := withPeerId (sl ! i) NO_PEER] ! j) \<noteq> NO_PEER"
  then have "j \<noteq> i"
    by (auto simp add: slot_defs)
  then show "map_of (AList.delete p idx) (getPeerId (sl[i := withPeerId (sl ! i) NO_PEER] ! j)) = Some j"
    using index_ok_delete_other [OF assms(1,2), of j] j by simp
qed

lemma index_ok_rescore:
  assumes "index_ok sl idx"
  shows "index_ok (sl[i := withScore (sl ! i) sc]) idx"
proof -
  have "\<And>j. j < length sl \<Longrightarrow> getPeerId (sl[i := withScore (sl ! i) sc] ! j) = getPeerId (sl ! j)"
    by (cases "i < length sl") (auto simp add: nth_list_update slot_defs)
  then show ?thesis
    using assms unfolding index_ok_def by simp
qed

lemma index_ok_relocate:
  assumes "index_ok sl idx" "map_of idx p = Some i"
  shows "index_ok (sl[i := withPeerId (sl ! i) NO_PEER] @ [\<lparr>start = st, score = sc, peerid = p\<rparr>])
           (AList.update p (length sl) idx)"
proof -
  have t: "index_ok (sl[i := withPeerId (sl ! i) NO_PEER]) (AList.delete p idx)"
    using assms by (rule index_ok_tombstone)
  have n: "map_of (AList.delete p idx) p = None"
    by (simp add: AList.delete_conv')
  have a: "index_ok (sl[i := withPeerId (sl ! i) NO_PEER] @ [\<lparr>start = st, score = sc, peerid = p\<rparr>])
      (AList.delete p idx @ [(p, length (sl[i := withPeerId (sl ! i) NO_PEER]))])"
    using t n by (rule index_ok_append)
  have m: "map_of (AList.update p (length sl) idx)
      = map_of (AList.delete p idx @ [(p, length (sl[i := withPeerId (sl ! i) NO_PEER]))])"
    by (rule ext) (auto simp add: AList.update_conv' AList.delete_conv' map_add_def split: option.splits)
  have d: "distinct (map fst (AList.update p (length sl) idx))"
    using assms(1) by (simp add: index_ok_def distinct_update)
  show ?thesis
    using a d unfolding index_ok_def m by simp
qed


lemma successively_snoc:
  "successively P xs \<Longrightarrow> (xs \<noteq> [] \<Longrightarrow> P (last xs) y) \<Longrightarrow> successively P (xs @ [y])"
  by (auto simp add: successively_append_iff)

lemma successively_butlast: "successively P xs \<Longrightarrow> successively P (butlast xs)"
proof (cases "xs = []")
  case False
  assume "successively P xs"
  then have "successively P (butlast xs @ [last xs])"
    using False by simp
  then show ?thesis
    by (simp only: successively_append_iff)
qed simp

lemma successively_update:
  assumes "successively P xs" "i < length xs"
    and "0 < i \<Longrightarrow> P (xs ! (i - 1)) y"
    and "Suc i < length xs \<Longrightarrow> P y (xs ! Suc i)"
  shows "successively P (xs[i := y])"
  unfolding successively_conv_nth
proof (intro allI impI)
  fix k assume k: "Suc k < length (xs[i := y])"
  then have old: "P (xs ! k) (xs ! Suc k)"
    using assms(1) by (simp add: successively_conv_nth)
  consider "k = i" | "Suc k = i" | "k \<noteq> i" "Suc k \<noteq> i" by blast
  then show "P (xs[i := y] ! k) (xs[i := y] ! Suc k)"
  proof cases
    case 1
    then show ?thesis using k assms(4) by simp
  next
    case 2
    then show ?thesis using k assms(2,3) by auto
  next
    case 3
    then show ?thesis using old by simp
  qed
qed

lemma successively_pred:
  "successively P xs \<Longrightarrow> 0 < i \<Longrightarrow> i < length xs \<Longrightarrow> P (xs ! (i - 1)) (xs ! i)"
  using successively_nth [of P xs "i - 1"] by simp

lemma last_update:
  "i < length xs \<Longrightarrow> last (xs[i := y]) = (if i + 1 = length xs then y else last xs)"
  by (cases "xs = []") (auto simp add: last_list_update)

lemma last_nth: "i + 1 = length xs \<Longrightarrow> last xs = xs ! i"
proof -
  assume a: "i + 1 = length xs"
  then have "xs \<noteq> []" "length xs - 1 = i"
    by auto
  then show ?thesis
    by (simp add: last_conv_nth)
qed

lemma line_wrapped_add:
  assumes "line_wrapped sl cnt"
  shows "line_wrapped (sl @ [\<lparr>start = cnt, score = sc, peerid = p\<rparr>]) (cnt + ucast sc)"
  using assms by (auto simp add: line_wrapped_def slot_defs intro!: successively_snoc)

lemma line_wrapped_pop:
  assumes "line_wrapped sl cnt"
  shows "line_wrapped (butlast sl) (if butlast sl = [] then 0 else getStop (last (butlast sl)))"
  using assms by (simp add: line_wrapped_def successively_butlast)

lemma line_wrapped_tombstone:
  assumes "line_wrapped sl cnt" "i < length sl"
  shows "line_wrapped (sl[i := withPeerId (sl ! i) NO_PEER]) cnt"
proof -
  have s: "successively (\<lambda>a b. getStop a \<le> getStart b) sl"
    using assms(1) by (simp add: line_wrapped_def)
  have "successively (\<lambda>a b. getStop a \<le> getStart b) (sl[i := withPeerId (sl ! i) NO_PEER])"
  proof (rule successively_update [OF s assms(2)])
    assume "0 < i"
    then show "getStop (sl ! (i - 1)) \<le> getStart (withPeerId (sl ! i) NO_PEER)"
      using successively_pred [OF s _ assms(2)] by (simp add: slot_defs)
  next
    assume "Suc i < length sl"
    then show "getStop (withPeerId (sl ! i) NO_PEER) \<le> getStart (sl ! Suc i)"
      using successively_nth [OF s] by (simp add: slot_defs)
  qed
  moreover have "getStop (last (sl[i := withPeerId (sl ! i) NO_PEER])) = getStop (last sl)"
    using assms(2) by (auto simp add: last_update last_nth slot_defs)
  ultimately show ?thesis
    using assms by (auto simp add: line_wrapped_def)
qed

lemma line_wrapped_rescore_last:
  assumes "line_wrapped sl cnt" "i + 1 = length sl"
  shows "line_wrapped (sl[i := withScore (sl ! i) sc]) (getStop (withScore (sl ! i) sc))"
proof -
  have s: "successively (\<lambda>a b. getStop a \<le> getStart b) sl"
    using assms(1) by (simp add: line_wrapped_def)
  have i: "i < length sl" using assms(2) by simp
  have "successively (\<lambda>a b. getStop a \<le> getStart b) (sl[i := withScore (sl ! i) sc])"
  proof (rule successively_update [OF s i])
    assume "0 < i"
    then show "getStop (sl ! (i - 1)) \<le> getStart (withScore (sl ! i) sc)"
      using successively_pred [OF s _ i] by (simp add: slot_defs)
  next
    assume "Suc i < length sl"
    then show "getStop (withScore (sl ! i) sc) \<le> getStart (sl ! Suc i)"
      using assms(2) by simp
  qed
  moreover have "last (sl[i := withScore (sl ! i) sc]) = withScore (sl ! i) sc"
    using assms(2) i by (simp add: last_update)
  ultimately show ?thesis
    using i by (auto simp add: line_wrapped_def)
qed

lemma line_wrapped_rescore_in_place:
  assumes "line_wrapped sl cnt" "i + 1 < length sl" "fits_in_place sl i sc"
  shows "line_wrapped (sl[i := withScore (sl ! i) sc]) cnt"
proof -
  have s: "successively (\<lambda>a b. getStop a \<le> getStart b) sl"
    using assms(1) by (simp add: line_wrapped_def)
  have i: "i < length sl" using assms(2) by simp
  have "successively (\<lambda>a b. getStop a \<le> getStart b) (sl[i := withScore (sl ! i) sc])"
  proof (rule successively_update [OF s i])
    assume "0 < i"
    then show "getStop (sl ! (i - 1)) \<le> getStart (withScore (sl ! i) sc)"
      using successively_pred [OF s _ i] by (simp add: slot_defs)
  next
    assume "Suc i < length sl"
    then show "getStop (withScore (sl ! i) sc) \<le> getStart (sl ! Suc i)"
      using assms(3) by (simp add: fits_in_place_def slot_defs)
  qed
  moreover have "last (sl[i := withScore (sl ! i) sc]) = last sl"
    using assms(2) by (simp add: last_update)
  ultimately show ?thesis
    using assms(1) by (auto simp add: line_wrapped_def)
qed

lemma verified_exec:
  assumes "verified pm" "plain_call pm c"
  shows "\<exists>pm'. exec c pm = Inr pm' \<and> verified pm'"
proof (cases c)
  case (AddPeer p sc)
  then have "map_of (peerIndices pm) p = None"
    using assms(2) by simp
  then show ?thesis
    using assms(1) AddPeer
    by (simp add: verified_def addPeer_def emplace_def Let_def index_ok_append line_wrapped_add)
next
  case (RemovePeer p)
  show ?thesis
  proof (cases "map_of (peerIndices pm) p")
    case None
    then show ?thesis
      using assms(1) RemovePeer by (simp add: removePeer_def)
  next
    case (Some i)
    then have i: "i < length (slots pm)"
      using assms(1) by (auto simp add: verified_def intro: index_ok_bound)
    show ?thesis
    proof (cases "i + 1 = length (slots pm)")
      case True
      have "line_wrapped (slots pm) (slotCount pm)"
        using assms(1) by (simp add: verified_def)
      then have "line_wrapped (butlast (slots pm))
          (if butlast (slots pm) = [] then 0 else getStop (last (butlast (slots pm))))"
        by (rule line_wrapped_pop)
      then show ?thesis
        using assms(1) RemovePeer Some i True
        by (auto simp add: verified_def removePeer_def Let_def index_ok_pop split: if_splits)
    next
      case False
      then show ?thesis
        using assms(1) RemovePeer Some i
        by (simp add: verified_def removePeer_def Let_def index_ok_tombstone line_wrapped_tombstone)
    qed
  qed
next
  case (RescorePeer p sc)
  show ?thesis
  proof (cases "map_of (peerIndices pm) p")
    case None
    then show ?thesis
      using assms(1) RescorePeer by (simp add: rescorePeer_def)
  next
    case (Some i)
    then have i: "i < length (slots pm)"
      using assms(1) by (auto simp add: verified_def intro: index_ok_bound)
    consider "i + 1 = length (slots pm)"
      | "i + 1 < length (slots pm)" "fits_in_place (slots pm) i sc"
      | "i + 1 < length (slots pm)" "\<not> fits_in_place (slots pm) i sc"
      using i by linarith
    then show ?thesis
    proof cases
      case 1
      have "line_wrapped (slots pm) (slotCount pm)"
        using assms(1) by (simp add: verified_def)
      then have "line_wrapped ((slots pm)[i := withScore (slots pm ! i) sc])
          (getStop (withScore (slots pm ! i) sc))"
        using 1 by (rule line_wrapped_rescore_last)
      then show ?thesis
        using assms(1) RescorePeer Some i 1
        by (simp add: verified_def rescorePeer_def Let_def index_ok_rescore)
    next
      case 2
      then show ?thesis
        using assms(1) RescorePeer Some i
        by (simp add: verified_def rescorePeer_def Let_def index_ok_rescore
            line_wrapped_rescore_in_place)
    next
      case 3
      have "line_wrapped ((slots pm)[i := withPeerId (slots pm ! i) NO_PEER]) (slotCount pm)"
        using assms(1) i by (simp add: verified_def line_wrapped_tombstone)
      then have "line_wrapped ((slots pm)[i := withPeerId (slots pm ! i) NO_PEER]
          @ [\<lparr>start = slotCount pm, score = sc, peerid = p\<rparr>]) (slotCount pm + ucast sc)"
        by (rule line_wrapped_add)
      then show ?thesis
        using assms(1) RescorePeer Some i 3
        by (simp add: verified_def rescorePeer_def Let_def index_ok_relocate)
    qed
  qed
next
  case Compact
  then show ?thesis
    using assms(2) by simp
qed

lemma verified_run:
  "verified pm \<Longrightarrow> plain_calls cs pm \<Longrightarrow> \<exists>pm'. run cs pm = Inr pm' \<and> verified pm'"
proof (induction cs arbitrary: pm)
  case Nil
  then show ?case by simp
next
  case (Cons c cs)
  then obtain pm1 where pm1: "exec c pm = Inr pm1" "verified pm1"
    using verified_exec [of pm c] by auto
  then have "plain_calls cs pm1"
    using Cons.prems(2) by simp
  then show ?case
    using Cons.IH [OF pm1(2)] pm1(1) by simp
qed

lemma plain_calls_take: "plain_calls cs pm \<Longrightarrow> plain_calls (take k cs) pm"
proof (induction cs arbitrary: pm k)
  case Nil
  then show ?case by simp
next
  case (Cons c cs)
  show ?case
  proof (cases k)
    case 0
    then show ?thesis by simp
  next
    case (Suc k')
    then show ?thesis
      using Cons by (auto split: sum.splits)
  qed
qed

lemma verified_empty: "verified empty_manager"
  by (simp add: verified_def empty_manager_def index_ok_def line_wrapped_def)

text \<open>
  C2: for every finite sequence of \<^verbatim>\<open>addPeer\<close>, \<^verbatim>\<open>removePeer\<close> and
  \<^verbatim>\<open>rescorePeer\<close> calls from the empty state in which each \<^verbatim>\<open>addPeer\<close> is given
  a peer id not currently present, every prefix of the sequence runs without abort and
  \<^verbatim>\<open>verify()\<close> returns true in the state it reaches. Neither a positive score nor
  the absence of 64-bit overflow is needed: \<^verbatim>\<open>verify\<close> compares the wrapped stops.
\<close>

theorem verify_after_every_prefix:
  assumes "plain_calls cs empty_manager"
  shows "\<exists>pm. run (take k cs) empty_manager = Inr pm \<and> verify pm"
  using verified_run [OF verified_empty plain_calls_take [OF assms, of k]] verified_verify by blast

theorem verify_after_every_prefix_witness:
  "plain_calls [AddPeer 10 100, AddPeer 20 200, AddPeer 30 300, RemovePeer 20, RescorePeer 10 50,
      RescorePeer 10 150, RemovePeer 30] empty_manager
   \<and> (\<exists>pm. run (take 6 [AddPeer 10 100, AddPeer 20 200, AddPeer 30 300, RemovePeer 20,
         RescorePeer 10 50, RescorePeer 10 150, RemovePeer 30]) empty_manager = Inr pm \<and> verify pm)"
proof -
  have "plain_calls [AddPeer 10 100, AddPeer 20 200, AddPeer 30 300, RemovePeer 20, RescorePeer 10 50,
      RescorePeer 10 150, RemovePeer 30] empty_manager"
    by (simp add: empty_manager_def mutation_defs slot_defs)
  then show ?thesis
    using verify_after_every_prefix [of "[AddPeer 10 100, AddPeer 20 200, AddPeer 30 300,
      RemovePeer 20, RescorePeer 10 50, RescorePeer 10 150, RemovePeer 30]" 6]
    by blast
qed

section \<open>Correctness of compaction\<close>

lemma clearLastElements_split:
  "\<exists>ys. sl = clearLastElements sl @ ys \<and> (\<forall>s \<in> set ys. \<not> live s)
     \<and> (clearLastElements sl = [] \<or> live (last (clearLastElements sl)))"
proof (induction sl rule: clearLastElements.induct)
  case (1 sl)
  show ?case
  proof (cases "sl \<noteq> [] \<and> getPeerId (last sl) = NO_PEER")
    case True
    then obtain ys where ys: "butlast sl = clearLastElements (butlast sl) @ ys"
      "\<forall>s \<in> set ys. \<not> live s"
      "clearLastElements (butlast sl) = [] \<or> live (last (clearLastElements (butlast sl)))"
      using "1.IH" by blast
    have c: "clearLastElements sl = clearLastElements (butlast sl)"
      using True by (subst clearLastElements.simps) simp
    have "butlast sl @ [last sl] = sl"
      using True by simp
    then have "sl = clearLastElements sl @ (ys @ [last sl])"
      using ys(1) c by (metis append.assoc)
    moreover have "\<forall>s \<in> set (ys @ [last sl]). \<not> live s"
      using ys(2) True by (simp add: live_def)
    ultimately show ?thesis
      using ys(3) c by metis
  next
    case False
    then have c: "clearLastElements sl = sl"
      by (subst clearLastElements.simps) auto
    have "sl = clearLastElements sl @ [] \<and> (\<forall>s \<in> set []. \<not> live s)
        \<and> (clearLastElements sl = [] \<or> live (last (clearLastElements sl)))"
      using False c by (auto simp add: live_def)
    then show ?thesis by blast
  qed
qed

lemma clearLastElements_id:
  "sl = [] \<or> live (last sl) \<Longrightarrow> clearLastElements sl = sl"
  by (subst clearLastElements.simps) (auto simp add: live_def)

lemma clearLastElements_last:
  "clearLastElements sl = [] \<or> live (last (clearLastElements sl))"
  using clearLastElements_split [of sl] by blast

lemma clearLastElements_keeps:
  assumes "j < length sl" "live (sl ! j)"
  shows "j < length (clearLastElements sl) \<and> clearLastElements sl ! j = sl ! j"
proof -
  obtain ys where ys: "sl = clearLastElements sl @ ys" "\<forall>s \<in> set ys. \<not> live s"
    using clearLastElements_split [of sl] by blast
  have "j < length (clearLastElements sl)"
  proof (rule ccontr)
    assume "\<not> j < length (clearLastElements sl)"
    then have "sl ! j = ys ! (j - length (clearLastElements sl))" "j - length (clearLastElements sl) < length ys"
      using ys(1) assms(1)
      by (metis nth_append, metis add_diff_inverse_nat length_append nat_add_left_cancel_less)
    then show False using ys(2) assms(2) by (metis nth_mem)
  qed
  then show ?thesis
    using ys(1) by (metis nth_append)
qed

lemma clearLastElements_take:
  "take (length (clearLastElements sl)) sl = clearLastElements sl"
  using clearLastElements_split [of sl] by (metis append_eq_conv_conj)

lemma clearLastElements_filter_drop:
  "filter live (drop k (clearLastElements sl)) = filter live (drop k sl)"
proof -
  obtain ys where ys: "sl = clearLastElements sl @ ys" "\<forall>s \<in> set ys. \<not> live s"
    using clearLastElements_split [of sl] by blast
  have "filter live (drop k sl) = filter live (drop k (clearLastElements sl @ ys))"
    using ys(1) by simp
  also have "\<dots> = filter live (drop k (clearLastElements sl))
      @ filter live (drop (k - length (clearLastElements sl)) ys)"
    by simp
  also have "filter live (drop (k - length (clearLastElements sl)) ys) = []"
    using ys(2) by (auto simp add: filter_empty_conv dest: in_set_dropD)
  finally show ?thesis by simp
qed

lemma withStart_id: "withStart s (getStart s) = s"
  by (simp add: slot_defs)

lemma compact_loop_packed:
  assumes "i \<le> length sl" "\<forall>s \<in> set (drop i sl). live s" "packed prev (drop i sl) e"
  shows "compact_loop i prev sl idx = Inr (sl, idx, e)"
  using assms
proof (induction "length sl - i" arbitrary: i prev)
  case 0
  then have "drop i sl = []" "\<not> i < length sl" by auto
  then show ?case
    using "0.prems"(3) by (subst compact_loop.simps) simp
next
  case (Suc n)
  then have i: "i < length sl" by simp
  then have d: "drop i sl = sl ! i # drop (Suc i) sl"
    by (simp add: Cons_nth_drop_Suc)
  then have l: "getPeerId (sl ! i) \<noteq> NO_PEER" and s: "getStart (sl ! i) = prev"
    and p: "packed (getStop (sl ! i)) (drop (Suc i) sl) e"
    and a: "\<forall>s \<in> set (drop (Suc i) sl). live s"
    using Suc.prems by (auto simp add: live_def)
  have u: "sl[i := withStart (sl ! i) prev] = sl"
    using s withStart_id [of "sl ! i"] by simp
  have "compact_loop (Suc i) (getStop (sl ! i)) sl idx = Inr (sl, idx, e)"
    using Suc.hyps(1) [of "Suc i" "getStop (sl ! i)"] Suc.hyps(2) i a p by simp
  then show ?case
    using i l u s withStart_id [of "sl ! i"] by (subst compact_loop.simps) (simp add: Let_def)
qed


lemma take_Suc_eq:
  assumes "take (Suc i) xs = take (Suc i) ys" "i < length ys"
  shows "i < length xs" and "xs ! i = ys ! i" and "take i xs = take i ys"
proof -
  have "length (take (Suc i) xs) = length (take (Suc i) ys)"
    using assms(1) by simp
  then show "i < length xs"
    using assms(2) by simp
  have "take (Suc i) xs ! i = take (Suc i) ys ! i"
    using assms(1) by simp
  then show "xs ! i = ys ! i"
    by simp
  have "take i (take (Suc i) xs) = take i (take (Suc i) ys)"
    using assms(1) by simp
  then show "take i xs = take i ys"
    by (simp add: min_def)
qed

lemma index_ok_same_peer:
  assumes "index_ok sl idx" "i < length sl" "getPeerId y = getPeerId (sl ! i)"
  shows "index_ok (sl[i := y]) idx"
proof -
  have "\<And>j. j < length sl \<Longrightarrow> getPeerId (sl[i := y] ! j) = getPeerId (sl ! j)"
    using assms(2,3) by (auto simp add: nth_list_update)
  then show ?thesis
    using assms(1) unfolding index_ok_def by simp
qed

lemma index_ok_live:
  "index_ok sl idx \<Longrightarrow> NO_PEER \<notin> fst ` set idx \<Longrightarrow> map_of idx p = Some j \<Longrightarrow>
   j < length sl \<and> getPeerId (sl ! j) = p \<and> live (sl ! j)"
proof -
  assume a: "index_ok sl idx" "NO_PEER \<notin> fst ` set idx" "map_of idx p = Some j"
  then have "p \<in> fst ` set idx"
    by (metis domI dom_map_of_conv_image_fst)
  then have "p \<noteq> NO_PEER"
    using a(2) by metis
  then show ?thesis
    using index_ok_bound [OF a(1,3)] index_ok_peer [OF a(1,3)] by (simp add: live_def)
qed

lemma index_ok_entry:
  "index_ok sl idx \<Longrightarrow> j < length sl \<Longrightarrow> live (sl ! j) \<Longrightarrow> map_of idx (getPeerId (sl ! j)) = Some j"
  unfolding index_ok_def live_def by blast

lemma compact_pre_live:
  assumes "compact_pre i sl idx" "i < length sl" "live (sl ! i)"
  shows "compact_pre (Suc i) (sl[i := withStart (sl ! i) prev]) idx"
proof -
  have "index_ok (sl[i := withStart (sl ! i) prev]) idx"
    using assms(1,2) by (intro index_ok_same_peer) (auto simp add: compact_pre_def slot_defs)
  moreover have "live (last (sl[i := withStart (sl ! i) prev]))"
    using assms by (auto simp add: compact_pre_def last_update live_def slot_defs)
  ultimately show ?thesis
    using assms(1,2) by (simp add: compact_pre_def)
qed

lemma compact_post_live:
  assumes "i < length sl" "live (sl ! i)"
    and "compact_post (Suc i) (getStop (withStart (sl ! i) prev)) (sl[i := withStart (sl ! i) prev]) idx r"
  shows "compact_post i prev sl idx r"
proof -
  obtain sl' idx' prev' where r: "r = (sl', idx', prev')"
    by (cases r)
  let ?s = "withStart (sl ! i) prev"
  have p: "Suc i \<le> length sl'" "take (Suc i) sl' = take (Suc i) (sl[i := ?s])"
    "\<forall>s \<in> set (drop (Suc i) sl'). live s" "packed (getStop ?s) (drop (Suc i) sl') prev'"
    "index_ok sl' idx'" "fst ` set idx' = fst ` set idx"
    "mset (map peer_score (drop (Suc i) sl')) = mset (map peer_score (filter live (drop (Suc i) (sl[i := ?s]))))"
    using assms(3) r by (simp_all add: compact_post_def)
  have t: "sl' ! i = ?s" "take i sl' = take i sl"
    using take_Suc_eq [OF p(2)] assms(1) by simp_all
  have d: "drop i sl' = ?s # drop (Suc i) sl'"
    using p(1) t(1) by (metis Cons_nth_drop_Suc Suc_le_lessD)
  have d0: "drop i sl = sl ! i # drop (Suc i) sl"
    using assms(1) by (simp add: Cons_nth_drop_Suc)
  have ls: "live ?s" "getStart ?s = prev" "peer_score ?s = peer_score (sl ! i)"
    using assms(2) by (simp_all add: live_def slot_defs peer_score_def)
  have ms: "mset (map peer_score (drop i sl')) = mset (map peer_score (filter live (drop i sl)))"
    using p(7) assms(2) ls(3) unfolding d d0 by simp
  have al: "\<forall>s \<in> set (drop i sl'). live s"
    using p(3) ls(1) unfolding d by simp
  have pk: "packed prev (drop i sl') prev'"
    using p(4) ls(2) unfolding d by simp
  show ?thesis
    using p(1,5,6) t(2) ms al pk unfolding r compact_post_def by simp
qed

lemma compact_dead_not_last:
  assumes "compact_pre i sl idx" "i < length sl" "\<not> live (sl ! i)"
  shows "Suc i < length sl" and "live (last sl)"
proof -
  show l: "live (last sl)"
    using assms by (simp add: compact_pre_def)
  have "sl \<noteq> []"
    using assms(2) by auto
  then have "last sl = sl ! (length sl - 1)"
    by (simp add: last_conv_nth)
  then have "i \<noteq> length sl - 1"
    using l assms(3) by auto
  then show "Suc i < length sl"
    using assms(2) by simp
qed

lemma compact_pre_dead:
  assumes "compact_pre i sl idx" "i < length sl" "\<not> live (sl ! i)"
  shows "compact_pre (Suc i) (clearLastElements (butlast (sl[i := withStart (last sl) prev])))
           (AList.update (getPeerId (withStart (last sl) prev)) i idx)"
proof -
  let ?s = "withStart (last sl) prev"
  let ?xs = "butlast (sl[i := ?s])"
  let ?q = "getPeerId ?s"
  note nl = compact_dead_not_last [OF assms]
  have ok: "index_ok sl idx" and nk: "NO_PEER \<notin> fst ` set idx"
    using assms(1) by (simp_all add: compact_pre_def)
  have q: "?q = getPeerId (last sl)" "live ?s" "?q \<noteq> NO_PEER"
    using nl(2) by (simp_all add: slot_defs live_def)
  have "sl \<noteq> []"
    using assms(2) by auto
  then have lastn: "last sl = sl ! (length sl - 1)"
    by (simp add: last_conv_nth)
  have qn: "map_of idx ?q = Some (length sl - 1)"
    using index_ok_entry [OF ok, of "length sl - 1"] nl(2) assms(2) q(1) lastn by simp
  have xi: "i < length ?xs" "?xs ! i = ?s"
    using nl(1) by (simp_all add: nth_butlast)
  have ki: "i < length (clearLastElements ?xs)" "clearLastElements ?xs ! i = ?s"
    using clearLastElements_keeps [OF xi(1)] xi(2) q(2) by simp_all
  have other: "j < length (clearLastElements ?xs) \<and> clearLastElements ?xs ! j = sl ! j"
    if "j < length sl" "live (sl ! j)" "j \<noteq> length sl - 1" for j
  proof -
    have "j \<noteq> i" using that(2) assms(3) by auto
    then have "j < length ?xs" "?xs ! j = sl ! j"
      using that(1,3) by (simp_all add: nth_butlast)
    then show ?thesis
      using clearLastElements_keeps [of j ?xs] that(2) by simp
  qed
  have pre: "clearLastElements ?xs ! j = ?xs ! j" if "j < length (clearLastElements ?xs)" for j
    using that clearLastElements_take [of ?xs] by (metis nth_take)
  have len: "length (clearLastElements ?xs) \<le> length ?xs"
    by (rule length_clearLastElements)
  have "index_ok (clearLastElements ?xs) (AList.update ?q i idx)"
    unfolding index_ok_def
  proof (intro conjI allI impI)
    show "distinct (map fst (AList.update ?q i idx))"
      using ok by (simp add: index_ok_def distinct_update)
  next
    fix p j assume "map_of (AList.update ?q i idx) p = Some j"
    then consider "p = ?q" "j = i" | "p \<noteq> ?q" "map_of idx p = Some j"
      by (auto simp add: update_conv' split: if_splits)
    then have "j < length (clearLastElements ?xs) \<and> getPeerId (clearLastElements ?xs ! j) = p"
    proof cases
      case 1
      then show ?thesis
        using ki by simp
    next
      case 2
      then have j: "j < length sl" "getPeerId (sl ! j) = p" "live (sl ! j)"
        using index_ok_live [OF ok nk] by blast+
      then have "j \<noteq> length sl - 1"
        using 2(1) q(1) lastn by auto
      then show ?thesis
        using other [OF j(1,3)] j(2) by simp
    qed
    then show "j < length (clearLastElements ?xs)"
      and "getPeerId (clearLastElements ?xs ! j) = p"
      by simp_all
  next
    fix j assume j: "j < length (clearLastElements ?xs)"
      "getPeerId (clearLastElements ?xs ! j) \<noteq> NO_PEER"
    show "map_of (AList.update ?q i idx) (getPeerId (clearLastElements ?xs ! j)) = Some j"
    proof (cases "j = i")
      case True
      then show ?thesis using ki by (simp add: update_conv')
    next
      case False
      have jx: "j < length ?xs" using j(1) len by simp
      then have e: "clearLastElements ?xs ! j = sl ! j" "j < length sl" "j \<noteq> length sl - 1"
        using pre [OF j(1)] False by (simp_all add: nth_butlast)
      then have "map_of idx (getPeerId (sl ! j)) = Some j"
        using index_ok_entry [OF ok, of j] j(2) by (simp add: live_def)
      moreover from this have "getPeerId (sl ! j) \<noteq> ?q"
        using qn e(3) by auto
      ultimately show ?thesis
        using e(1) by (simp add: update_conv')
    qed
  qed
  moreover have "NO_PEER \<notin> fst ` set (AList.update ?q i idx)"
    using nk q(3) by (simp add: dom_update)
  moreover have "live (last (clearLastElements ?xs))"
    using clearLastElements_last [of ?xs] ki(1) by auto
  ultimately show ?thesis
    using ki(1) by (simp add: compact_pre_def)
qed


lemma compact_post_dead:
  assumes "compact_pre i sl idx" "i < length sl" "\<not> live (sl ! i)"
    and "compact_post (Suc i) (getStop (withStart (last sl) prev))
           (clearLastElements (butlast (sl[i := withStart (last sl) prev])))
           (AList.update (getPeerId (withStart (last sl) prev)) i idx) r"
  shows "compact_post i prev sl idx r"
proof -
  obtain sl' idx' prev' where r: "r = (sl', idx', prev')"
    by (cases r)
  let ?s = "withStart (last sl) prev"
  let ?xs = "butlast (sl[i := ?s])"
  let ?q = "getPeerId ?s"
  note nl = compact_dead_not_last [OF assms(1-3)]
  have ok: "index_ok sl idx"
    using assms(1) by (simp add: compact_pre_def)
  have p: "Suc i \<le> length sl'" "take (Suc i) sl' = take (Suc i) (clearLastElements ?xs)"
    "\<forall>s \<in> set (drop (Suc i) sl'). live s" "packed (getStop ?s) (drop (Suc i) sl') prev'"
    "index_ok sl' idx'" "fst ` set idx' = fst ` set (AList.update ?q i idx)"
    "mset (map peer_score (drop (Suc i) sl'))
       = mset (map peer_score (filter live (drop (Suc i) (clearLastElements ?xs))))"
    using assms(4) r by (simp_all add: compact_post_def)
  have ls: "live ?s" "getStart ?s = prev" "peer_score ?s = peer_score (last sl)"
    using nl(2) by (simp_all add: live_def slot_defs peer_score_def)
  have xi: "i < length ?xs" "?xs ! i = ?s"
    using nl(1) by (simp_all add: nth_butlast)
  have ki: "i < length (clearLastElements ?xs)" "clearLastElements ?xs ! i = ?s"
    using clearLastElements_keeps [OF xi(1)] xi(2) ls(1) by simp_all
  have t: "sl' ! i = ?s" "take i sl' = take i (clearLastElements ?xs)"
    using take_Suc_eq [OF p(2) ki(1)] ki(2) by simp_all
  have "take i (clearLastElements ?xs) = take i (take (length (clearLastElements ?xs)) ?xs)"
    by (simp only: clearLastElements_take)
  also have "\<dots> = take i ?xs"
    using ki(1) by (simp add: min_def)
  also have "\<dots> = take i sl"
    using nl(1) by (simp add: take_butlast)
  finally have ti: "take i sl' = take i sl"
    using t(2) by simp
  have d: "drop i sl' = ?s # drop (Suc i) sl'"
    using p(1) t(1) by (metis Cons_nth_drop_Suc Suc_le_lessD)
  have al: "\<forall>s \<in> set (drop i sl'). live s"
    using p(3) ls(1) unfolding d by simp
  have pk: "packed prev (drop i sl') prev'"
    using p(4) ls(2) unfolding d by simp
  have "sl \<noteq> []"
    using assms(2) by auto
  then have lastn: "last sl = sl ! (length sl - 1)"
    by (simp add: last_conv_nth)
  have "map_of idx ?q = Some (length sl - 1)"
    using index_ok_entry [OF ok, of "length sl - 1"] nl(2) assms(2) lastn by (simp add: slot_defs)
  then have "?q \<in> fst ` set idx"
    by (metis domI dom_map_of_conv_image_fst)
  then have keys: "fst ` set idx' = fst ` set idx"
    using p(6) by (auto simp add: dom_update)
  have dx: "drop (Suc i) ?xs = butlast (drop (Suc i) sl)"
    by (simp add: drop_butlast)
  have ne: "drop (Suc i) sl \<noteq> []"
    using nl(1) by simp
  then have "drop (Suc i) sl = butlast (drop (Suc i) sl) @ [last sl]"
    using nl(1) by (metis append_butlast_last_id last_drop)
  then have "filter live (drop (Suc i) sl) = filter live (butlast (drop (Suc i) sl)) @ [last sl]"
    using nl(2) by (metis filter.simps(1) filter.simps(2) filter_append)
  moreover have "filter live (drop i sl) = filter live (drop (Suc i) sl)"
    using assms(2,3) by (metis Cons_nth_drop_Suc filter.simps(2))
  moreover have "filter live (drop (Suc i) (clearLastElements ?xs)) = filter live (butlast (drop (Suc i) sl))"
    using clearLastElements_filter_drop [of "Suc i" ?xs] dx by simp
  ultimately have ms: "mset (map peer_score (drop i sl')) = mset (map peer_score (filter live (drop i sl)))"
    using p(7) ls(3) unfolding d by simp
  show ?thesis
    using p(1,5) keys ti ms al pk unfolding r compact_post_def by simp
qed

lemma compact_loop_correct:
  "compact_pre i sl idx \<Longrightarrow>
   \<exists>r. compact_loop i prev sl idx = Inr r \<and> compact_post i prev sl idx r"
proof (induction i prev sl idx rule: compact_loop.induct)
  case (1 i prev sl idx)
  show ?case
  proof (cases "i < length sl")
    case False
    then have "i = length sl"
      using "1.prems" by (simp add: compact_pre_def)
    then have "compact_post i prev sl idx (sl, idx, prev)"
      using "1.prems" by (simp add: compact_post_def compact_pre_def)
    then show ?thesis
      using False by (subst compact_loop.simps) simp
  next
    case True
    show ?thesis
    proof (cases "getPeerId (sl ! i) \<noteq> NO_PEER")
      case live: True
      then have l: "live (sl ! i)"
        by (simp add: live_def)
      obtain r where r: "compact_loop (i + 1) (getStop (withStart (sl ! i) prev))
            (sl[i := withStart (sl ! i) prev]) idx = Inr r"
          "compact_post (Suc i) (getStop (withStart (sl ! i) prev))
            (sl[i := withStart (sl ! i) prev]) idx r"
        using "1.IH"(1) [OF True live refl] compact_pre_live [OF "1.prems" True l, of prev] by auto
      have "compact_post i prev sl idx r"
        using True l r(2) by (rule compact_post_live)
      then show ?thesis
        using True live r(1) by (subst compact_loop.simps) (simp add: Let_def)
    next
      case dead: False
      then have l: "\<not> live (sl ! i)"
        by (simp add: live_def)
      have ls: "getPeerId (withStart (last sl) prev) \<noteq> NO_PEER"
        using compact_dead_not_last(2) [OF "1.prems" True l] by (simp add: live_def slot_defs)
      then have ls': "\<not> \<not> getPeerId (withStart (last sl) prev) \<noteq> NO_PEER"
        by simp
      obtain r where r: "compact_loop (i + 1) (getStop (withStart (last sl) prev))
            (clearLastElements (butlast (sl[i := withStart (last sl) prev])))
            (AList.update (getPeerId (withStart (last sl) prev)) i idx) = Inr r"
          "compact_post (Suc i) (getStop (withStart (last sl) prev))
            (clearLastElements (butlast (sl[i := withStart (last sl) prev])))
            (AList.update (getPeerId (withStart (last sl) prev)) i idx) r"
        using "1.IH"(2) [OF True dead refl ls'] compact_pre_dead [OF "1.prems" True l, of prev]
        by auto
      have "compact_post i prev sl idx r"
        using "1.prems" True l r(2) by (rule compact_post_dead)
      then show ?thesis
        using True dead ls r(1) by (subst compact_loop.simps) (simp add: Let_def)
    qed
  qed
qed

lemma stopN_simps:
  "stopN \<lparr>start = st, score = sc, peerid = p\<rparr> = unat st + unat sc"
  "stopN (withPeerId s q) = stopN s"
  "stopN (withScore s sc) = unat (getStart s) + unat sc"
  by (simp_all add: stopN_def slot_defs)

lemma unat_add_exact:
  "unat (a :: u64) + unat (sc :: u32) < 2 ^ 64 \<Longrightarrow> unat (a + ucast sc) = unat a + unat sc"
  using unat_add_lem [of a "ucast sc"] by (simp add: unat_ucast_u32)

lemma line_exact_add:
  assumes "line_exact sl cnt" "unat cnt + unat sc < 2 ^ 64"
  shows "line_exact (sl @ [\<lparr>start = cnt, score = sc, peerid = p\<rparr>]) (cnt + ucast sc)"
proof -
  have "successively (\<lambda>a b. stopN a \<le> unat (getStart b)) (sl @ [\<lparr>start = cnt, score = sc, peerid = p\<rparr>])"
    using assms(1) by (intro successively_snoc) (auto simp add: line_exact_def slot_defs)
  then show ?thesis
    using assms(2) by (simp add: line_exact_def stopN_simps unat_add_exact)
qed

lemma line_exact_pop:
  assumes "line_exact sl cnt"
  shows "line_exact (butlast sl) (if butlast sl = [] then 0 else getStop (last (butlast sl)))"
proof (cases "butlast sl = []")
  case True
  then show ?thesis by (simp add: line_exact_def)
next
  case False
  then have "sl \<noteq> []" by auto
  then have "successively (\<lambda>a b. stopN a \<le> unat (getStart b)) (butlast sl @ [last sl])"
    using assms by (simp add: line_exact_def)
  then have "stopN (last (butlast sl)) \<le> unat (getStart (last sl))"
    using False by (simp add: successively_append_iff)
  then have "stopN (last (butlast sl)) < 2 ^ 64"
    using unat_u64_bound [of "getStart (last sl)"] by simp
  then have "stopN (last (butlast sl)) = unat (getStop (last (butlast sl)))"
    by (simp add: unat_getStop)
  then show ?thesis
    using assms False by (simp add: line_exact_def successively_butlast)
qed

lemma line_exact_tombstone:
  assumes "line_exact sl cnt" "i < length sl"
  shows "line_exact (sl[i := withPeerId (sl ! i) NO_PEER]) cnt"
proof -
  have s: "successively (\<lambda>a b. stopN a \<le> unat (getStart b)) sl"
    using assms(1) by (simp add: line_exact_def)
  have "successively (\<lambda>a b. stopN a \<le> unat (getStart b)) (sl[i := withPeerId (sl ! i) NO_PEER])"
  proof (rule successively_update [OF s assms(2)])
    assume "0 < i"
    then show "stopN (sl ! (i - 1)) \<le> unat (getStart (withPeerId (sl ! i) NO_PEER))"
      using successively_pred [OF s _ assms(2)] by (simp add: slot_defs)
  next
    assume "Suc i < length sl"
    then show "stopN (withPeerId (sl ! i) NO_PEER) \<le> unat (getStart (sl ! Suc i))"
      using successively_nth [OF s] by (simp add: stopN_simps)
  qed
  moreover have "stopN (last (sl[i := withPeerId (sl ! i) NO_PEER])) = stopN (last sl)"
    using assms(2) by (auto simp add: last_update last_nth stopN_simps)
  ultimately show ?thesis
    using assms by (auto simp add: line_exact_def)
qed

lemma line_exact_rescore_last:
  assumes "line_exact sl cnt" "i + 1 = length sl" "unat (getStart (sl ! i)) + unat sc < 2 ^ 64"
  shows "line_exact (sl[i := withScore (sl ! i) sc]) (getStop (withScore (sl ! i) sc))"
proof -
  have s: "successively (\<lambda>a b. stopN a \<le> unat (getStart b)) sl"
    using assms(1) by (simp add: line_exact_def)
  have i: "i < length sl" using assms(2) by simp
  have "successively (\<lambda>a b. stopN a \<le> unat (getStart b)) (sl[i := withScore (sl ! i) sc])"
  proof (rule successively_update [OF s i])
    assume "0 < i"
    then show "stopN (sl ! (i - 1)) \<le> unat (getStart (withScore (sl ! i) sc))"
      using successively_pred [OF s _ i] by (simp add: slot_defs)
  next
    assume "Suc i < length sl"
    then show "stopN (withScore (sl ! i) sc) \<le> unat (getStart (sl ! Suc i))"
      using assms(2) by simp
  qed
  moreover have "last (sl[i := withScore (sl ! i) sc]) = withScore (sl ! i) sc"
    using assms(2) i by (simp add: last_update)
  moreover have "stopN (withScore (sl ! i) sc) = unat (getStop (withScore (sl ! i) sc))"
    using assms(3) by (simp add: unat_getStop stopN_simps)
  ultimately show ?thesis
    using i by (auto simp add: line_exact_def)
qed

lemma line_exact_rescore_in_place:
  assumes "line_exact sl cnt" "i + 1 < length sl" "fits_in_place sl i sc"
    "unat (getStart (sl ! i)) + unat sc < 2 ^ 64"
  shows "line_exact (sl[i := withScore (sl ! i) sc]) cnt"
proof -
  have s: "successively (\<lambda>a b. stopN a \<le> unat (getStart b)) sl"
    using assms(1) by (simp add: line_exact_def)
  have i: "i < length sl" using assms(2) by simp
  have "unat (getStart (sl ! i) + ucast sc) \<le> unat (getStart (sl ! (i + 1)))"
    using assms(3) by (simp add: fits_in_place_def word_le_nat_alt)
  then have f: "unat (getStart (sl ! i)) + unat sc \<le> unat (getStart (sl ! Suc i))"
    using assms(4) by (simp add: unat_add_exact)
  have "successively (\<lambda>a b. stopN a \<le> unat (getStart b)) (sl[i := withScore (sl ! i) sc])"
  proof (rule successively_update [OF s i])
    assume "0 < i"
    then show "stopN (sl ! (i - 1)) \<le> unat (getStart (withScore (sl ! i) sc))"
      using successively_pred [OF s _ i] by (simp add: slot_defs)
  next
    assume "Suc i < length sl"
    then show "stopN (withScore (sl ! i) sc) \<le> unat (getStart (sl ! Suc i))"
      using f by (simp add: stopN_simps)
  qed
  moreover have "last (sl[i := withScore (sl ! i) sc]) = last sl"
    using assms(2) by (simp add: last_update)
  ultimately show ?thesis
    using assms(1) by (auto simp add: line_exact_def)
qed

lemma keys_Some: "map_of idx p = Some i \<Longrightarrow> p \<in> fst ` set idx"
  by (metis domI dom_map_of_conv_image_fst)

lemma state_inv_mutation:
  assumes "state_inv pm" "valid_call pm c" "c \<noteq> Compact"
  shows "\<exists>pm'. exec c pm = Inr pm' \<and> state_inv pm'"
proof (cases c)
  case (AddPeer p sc)
  then have v: "map_of (peerIndices pm) p = None" "p \<noteq> NO_PEER"
    "unat (slotCount pm) + unat sc < 2 ^ 64"
    using assms(2) by simp_all
  then show ?thesis
    using assms(1) AddPeer
    by (simp add: state_inv_def addPeer_def emplace_def Let_def index_ok_append line_exact_add)
next
  case (RemovePeer p)
  show ?thesis
  proof (cases "map_of (peerIndices pm) p")
    case None
    then show ?thesis
      using assms(1) RemovePeer by (simp add: removePeer_def)
  next
    case (Some i)
    then have i: "i < length (slots pm)"
      using assms(1) by (auto simp add: state_inv_def intro: index_ok_bound)
    have nk: "NO_PEER \<notin> fst ` set (AList.delete p (peerIndices pm))"
      using assms(1) dom_delete_subset [of p "peerIndices pm"] by (auto simp add: state_inv_def)
    show ?thesis
    proof (cases "i + 1 = length (slots pm)")
      case True
      have "line_exact (slots pm) (slotCount pm)"
        using assms(1) by (simp add: state_inv_def)
      then have "line_exact (butlast (slots pm))
          (if butlast (slots pm) = [] then 0 else getStop (last (butlast (slots pm))))"
        by (rule line_exact_pop)
      then show ?thesis
        using assms(1) RemovePeer Some i True nk
        by (auto simp add: state_inv_def removePeer_def Let_def index_ok_pop split: if_splits)
    next
      case False
      then show ?thesis
        using assms(1) RemovePeer Some i nk
        by (simp add: state_inv_def removePeer_def Let_def index_ok_tombstone line_exact_tombstone)
    qed
  qed
next
  case (RescorePeer p sc)
  show ?thesis
  proof (cases "map_of (peerIndices pm) p")
    case None
    then show ?thesis
      using assms(1) RescorePeer by (simp add: rescorePeer_def)
  next
    case (Some i)
    then have i: "i < length (slots pm)"
      using assms(1) by (auto simp add: state_inv_def intro: index_ok_bound)
    have v: "unat (getStart (slots pm ! i)) + unat sc < 2 ^ 64"
      "i + 1 = length (slots pm) \<or> fits_in_place (slots pm) i sc
        \<or> unat (slotCount pm) + unat sc < 2 ^ 64"
      using assms(2) RescorePeer Some by simp_all
    have le: "line_exact (slots pm) (slotCount pm)"
      using assms(1) by (simp add: state_inv_def)
    consider "i + 1 = length (slots pm)"
      | "i + 1 < length (slots pm)" "fits_in_place (slots pm) i sc"
      | "i + 1 < length (slots pm)" "\<not> fits_in_place (slots pm) i sc"
      using i by linarith
    then show ?thesis
    proof cases
      case 1
      have "line_exact ((slots pm)[i := withScore (slots pm ! i) sc])
          (getStop (withScore (slots pm ! i) sc))"
        using le 1 v(1) by (rule line_exact_rescore_last)
      then show ?thesis
        using assms(1) RescorePeer Some i 1
        by (simp add: state_inv_def rescorePeer_def Let_def index_ok_rescore)
    next
      case 2
      then show ?thesis
        using assms(1) RescorePeer Some i v(1)
        by (simp add: state_inv_def rescorePeer_def Let_def index_ok_rescore
            line_exact_rescore_in_place)
    next
      case 3
      then have o: "unat (slotCount pm) + unat sc < 2 ^ 64"
        using v(2) by auto
      have "line_exact ((slots pm)[i := withPeerId (slots pm ! i) NO_PEER]) (slotCount pm)"
        using le i by (simp add: line_exact_tombstone)
      then have "line_exact ((slots pm)[i := withPeerId (slots pm ! i) NO_PEER]
          @ [\<lparr>start = slotCount pm, score = sc, peerid = p\<rparr>]) (slotCount pm + ucast sc)"
        using o by (rule line_exact_add)
      moreover have "NO_PEER \<notin> fst ` set (AList.update p (length (slots pm)) (peerIndices pm))"
        using assms(1) keys_Some [OF Some] by (auto simp add: state_inv_def dom_update)
      ultimately show ?thesis
        using assms(1) RescorePeer Some i 3
        by (simp add: state_inv_def rescorePeer_def Let_def index_ok_relocate)
    qed
  qed
next
  case Compact
  then show ?thesis
    using assms(3) by simp
qed

lemma score_sum_simps [simp]:
  "score_sum [] = 0" "score_sum (s # ss) = unat (getScore s) + score_sum ss"
  "score_sum (xs @ ys) = score_sum xs + score_sum ys"
  by (simp_all add: score_sum_def)

lemma packed_exact:
  "packed p sl e \<Longrightarrow> unat p + score_sum sl < 2 ^ 64 \<Longrightarrow>
   unat e = unat p + score_sum sl
   \<and> successively (\<lambda>a b. stopN a \<le> unat (getStart b)) sl
   \<and> successively (\<lambda>a b. getStop a \<le> getStart b) sl
   \<and> (sl \<noteq> [] \<longrightarrow> unat (getStart (hd sl)) = unat p \<and> stopN (last sl) = unat e \<and> getStop (last sl) = e)"
proof (induction sl arbitrary: p)
  case Nil
  then show ?case by simp
next
  case (Cons s ss)
  have st: "getStart s = p" and pk: "packed (getStop s) ss e"
    using Cons.prems(1) by simp_all
  have b: "stopN s < 2 ^ 64" "stopN s = unat p + unat (getScore s)"
    using Cons.prems(2) st by (simp_all add: stopN_def slot_defs)
  then have gs: "unat (getStop s) = unat p + unat (getScore s)"
    by (simp add: unat_getStop)
  then have "unat (getStop s) + score_sum ss < 2 ^ 64"
    using Cons.prems(2) by simp
  note IH = Cons.IH [OF pk this]
  show ?case
  proof (cases ss)
    case Nil
    then show ?thesis
      using IH gs b st pk by simp
  next
    case (Cons t ts)
    then have "getStart t = getStop s"
      using pk by simp
    then show ?thesis
      using Cons IH gs b st by (simp add: getStart_def)
  qed
qed

lemma line_exact_sum:
  "successively (\<lambda>a b. stopN a \<le> unat (getStart b)) sl \<Longrightarrow> sl \<noteq> [] \<Longrightarrow>
   unat (getStart (hd sl)) + score_sum sl \<le> stopN (last sl)"
proof (induction sl)
  case Nil
  then show ?case by simp
next
  case (Cons s ss)
  show ?case
  proof (cases ss)
    case Nil
    then show ?thesis by (simp add: stopN_def slot_defs)
  next
    case (Cons t ts)
    then have "stopN s \<le> unat (getStart (hd ss))" "successively (\<lambda>a b. stopN a \<le> unat (getStart b)) ss"
      using Cons.prems(1) by simp_all
    moreover have "unat (getStart (hd ss)) + score_sum ss \<le> stopN (last ss)"
      using Cons.IH calculation(2) Cons by simp
    ultimately show ?thesis
      using Cons by (simp add: stopN_def slot_defs)
  qed
qed

lemma score_sum_mset:
  assumes "mset (map peer_score xs) = mset (map peer_score ys)"
  shows "score_sum xs = score_sum ys"
proof -
  have "\<And>zs. score_sum zs = sum_mset (image_mset (unat \<circ> snd) (mset (map peer_score zs)))"
    by (simp add: score_sum_def peer_score_def sum_mset_sum_list [symmetric] image_mset.compositionality comp_def)
  then show ?thesis
    using assms by simp
qed

lemma score_sum_filter: "score_sum (filter P sl) \<le> score_sum sl"
  unfolding score_sum_def by (rule sum_list_filter_le_nat)

lemma index_ok_clearLastElements:
  assumes "index_ok sl idx" "NO_PEER \<notin> fst ` set idx"
  shows "index_ok (clearLastElements sl) idx"
  unfolding index_ok_def
proof (intro conjI allI impI)
  show "distinct (map fst idx)"
    using assms(1) by (simp add: index_ok_def)
next
  fix p j assume "map_of idx p = Some j"
  then have "j < length sl \<and> getPeerId (sl ! j) = p \<and> live (sl ! j)"
    by (rule index_ok_live [OF assms])
  then show "j < length (clearLastElements sl)" and "getPeerId (clearLastElements sl ! j) = p"
    using clearLastElements_keeps [of j sl] by simp_all
next
  fix j assume j: "j < length (clearLastElements sl)" "getPeerId (clearLastElements sl ! j) \<noteq> NO_PEER"
  have "clearLastElements sl ! j = sl ! j"
    using j(1) clearLastElements_take [of sl] by (metis nth_take)
  moreover have "j < length sl"
    using j(1) length_clearLastElements [of sl] by simp
  ultimately show "map_of idx (getPeerId (clearLastElements sl ! j)) = Some j"
    using index_ok_entry [OF assms(1), of j] j(2) by (simp add: live_def)
qed

lemma compact_result:
  assumes "state_inv pm"
  shows "\<exists>sl' idx' e.
      compact pm = Inr (slotCount pm - e,
        pm\<lparr>slots := sl', peerIndices := idx', slotCount := e, fragmentation := 0\<rparr>)
      \<and> (\<forall>s \<in> set sl'. live s) \<and> packed 0 sl' e \<and> index_ok sl' idx'
      \<and> fst ` set idx' = fst ` set (peerIndices pm)
      \<and> mset (map peer_score sl') = mset (map peer_score (filter live (slots pm)))
      \<and> score_sum sl' = unat e"
proof -
  let ?sl = "clearLastElements (slots pm)"
  have ok: "index_ok (slots pm) (peerIndices pm)" and nk: "NO_PEER \<notin> fst ` set (peerIndices pm)"
    and le: "line_exact (slots pm) (slotCount pm)"
    using assms by (simp_all add: state_inv_def)
  have "compact_pre 0 ?sl (peerIndices pm)"
    using index_ok_clearLastElements [OF ok nk] nk clearLastElements_last [of "slots pm"]
    by (auto simp add: compact_pre_def)
  then obtain r where r: "compact_loop 0 0 ?sl (peerIndices pm) = Inr r"
    "compact_post 0 0 ?sl (peerIndices pm) r"
    using compact_loop_correct by blast
  obtain sl' idx' e where re: "r = (sl', idx', e)"
    by (cases r)
  have p: "\<forall>s \<in> set sl'. live s" "packed 0 sl' e" "index_ok sl' idx'"
    "fst ` set idx' = fst ` set (peerIndices pm)"
    "mset (map peer_score sl') = mset (map peer_score (filter live ?sl))"
    using r(2) re by (simp_all add: compact_post_def)
  have f: "filter live ?sl = filter live (slots pm)"
    using clearLastElements_filter_drop [of 0 "slots pm"] by simp
  have "score_sum sl' = score_sum (filter live (slots pm))"
    using p(5) f by (simp add: score_sum_mset)
  also have "\<dots> \<le> score_sum (slots pm)"
    by (rule score_sum_filter)
  also have "\<dots> < 2 ^ 64"
  proof (cases "slots pm = []")
    case True
    then show ?thesis by simp
  next
    case False
    then have "score_sum (slots pm) \<le> stopN (last (slots pm))"
      using line_exact_sum [of "slots pm"] le by (simp add: line_exact_def)
    then show ?thesis
      using le False unat_u64_bound [of "slotCount pm"] by (simp add: line_exact_def)
  qed
  finally have "unat (0 :: u64) + score_sum sl' < 2 ^ 64"
    by simp
  then have "score_sum sl' = unat e"
    using packed_exact [OF p(2)] by simp
  moreover have "compact pm = Inr (slotCount pm - e,
      pm\<lparr>slots := sl', peerIndices := idx', slotCount := e, fragmentation := 0\<rparr>)"
    using r(1) re by (simp add: compact_def)
  ultimately show ?thesis
    using p f by auto
qed

lemma compacted_state_inv:
  assumes "\<forall>s \<in> set sl'. live s" "packed 0 sl' e" "index_ok sl' idx'" "NO_PEER \<notin> fst ` set idx'"
    "score_sum sl' = unat e"
  shows "state_inv (pm\<lparr>slots := sl', peerIndices := idx', slotCount := e, fragmentation := 0\<rparr>)"
proof -
  have "unat (0 :: u64) + score_sum sl' < 2 ^ 64"
    using assms(5) unat_u64_bound [of e] by simp
  then have "line_exact sl' e"
    using packed_exact [OF assms(2)] assms(2) by (auto simp add: line_exact_def)
  then show ?thesis
    using assms by (simp add: state_inv_def)
qed

lemma compacted_fixpoint:
  assumes "\<forall>s \<in> set (slots pm). live s" "packed 0 (slots pm) (slotCount pm)" "fragmentation pm = 0"
  shows "compact pm = Inr (0, pm)"
proof -
  have "slots pm = [] \<or> live (last (slots pm))"
    using assms(1) by (cases "slots pm = []") auto
  then have c: "clearLastElements (slots pm) = slots pm"
    by (rule clearLastElements_id)
  have "compact_loop 0 0 (slots pm) (peerIndices pm) = Inr (slots pm, peerIndices pm, slotCount pm)"
    using assms(1,2) by (intro compact_loop_packed) simp_all
  then show ?thesis
    using assms(3) by (simp add: compact_def c)
qed

lemma state_inv_exec:
  assumes "state_inv pm" "valid_call pm c"
  shows "\<exists>pm'. exec c pm = Inr pm' \<and> state_inv pm'"
proof (cases "c = Compact")
  case False
  then show ?thesis
    using assms by (rule state_inv_mutation [rotated 2])
next
  case True
  obtain sl' idx' e where c: "compact pm = Inr (slotCount pm - e,
        pm\<lparr>slots := sl', peerIndices := idx', slotCount := e, fragmentation := 0\<rparr>)"
      "\<forall>s \<in> set sl'. live s" "packed 0 sl' e" "index_ok sl' idx'"
      "fst ` set idx' = fst ` set (peerIndices pm)" "score_sum sl' = unat e"
    using compact_result [OF assms(1)] by blast
  have "NO_PEER \<notin> fst ` set idx'"
    using c(5) assms(1) by (simp add: state_inv_def)
  then have "state_inv (pm\<lparr>slots := sl', peerIndices := idx', slotCount := e, fragmentation := 0\<rparr>)"
    using c by (intro compacted_state_inv) simp_all
  then show ?thesis
    using True c(1) by simp
qed

lemma state_inv_run:
  "state_inv pm \<Longrightarrow> valid_calls cs pm \<Longrightarrow> \<exists>pm'. run cs pm = Inr pm' \<and> state_inv pm'"
proof (induction cs arbitrary: pm)
  case Nil
  then show ?case by simp
next
  case (Cons c cs)
  then obtain pm1 where pm1: "exec c pm = Inr pm1" "state_inv pm1"
    using state_inv_exec [of pm c] by auto
  then have "valid_calls cs pm1"
    using Cons.prems(2) by simp
  then show ?case
    using Cons.IH [OF pm1(2)] pm1(1) by simp
qed

lemma state_inv_empty: "state_inv empty_manager"
  by (simp add: state_inv_def empty_manager_def index_ok_def line_exact_def)

lemma compacted_verified:
  assumes "packed 0 sl' e" "index_ok sl' idx'" "score_sum sl' = unat e"
  shows "verified (pm\<lparr>slots := sl', peerIndices := idx', slotCount := e, fragmentation := 0\<rparr>)"
proof -
  have "unat (0 :: u64) + score_sum sl' < 2 ^ 64"
    using assms(3) unat_u64_bound [of e] by simp
  then have "line_wrapped sl' e"
    using packed_exact [OF assms(1)] assms(1) by (auto simp add: line_wrapped_def)
  then show ?thesis
    using assms(2) by (simp add: verified_def)
qed

lemma compact_keeps_score:
  assumes "index_ok sl idx" "NO_PEER \<notin> fst ` set idx" "index_ok sl' idx'" "\<forall>s \<in> set sl'. live s"
    and "mset (map peer_score sl') = mset (map peer_score (filter live sl))"
    and "map_of idx p = Some j"
  shows "\<exists>j'. map_of idx' p = Some j' \<and> getScore (sl' ! j') = getScore (sl ! j)"
proof -
  have j: "j < length sl" "getPeerId (sl ! j) = p" "live (sl ! j)"
    using index_ok_live [OF assms(1,2,6)] by simp_all
  then have "sl ! j \<in> set (filter live sl)"
    by simp
  then have "peer_score (sl ! j) \<in> set (map peer_score (filter live sl))"
    by simp
  then have "peer_score (sl ! j) \<in> set (map peer_score sl')"
    using assms(5) by (metis mset_eq_setD)
  then obtain j' where j': "j' < length sl'" "peer_score (sl' ! j') = peer_score (sl ! j)"
    by (auto simp add: in_set_conv_nth)
  then have "live (sl' ! j')" "getPeerId (sl' ! j') = p" "getScore (sl' ! j') = getScore (sl ! j)"
    using assms(4) j(2) by (simp_all add: peer_score_def)
  then show ?thesis
    using index_ok_entry [OF assms(3) j'(1)] by auto
qed

lemmas compact_defs = compact_def clearLastElements.simps compact_loop.simps NO_PEER_def

lemma scenario2_run:
  "run [AddPeer 10 100, AddPeer 20 200, AddPeer 30 300, RemovePeer 20] empty_manager = Inr scenario2"
  by (simp add: empty_manager_def mutation_defs slot_defs scenario2_def)

lemma scenario2_valid:
  "valid_calls [AddPeer 10 100, AddPeer 20 200, AddPeer 30 300, RemovePeer 20] empty_manager"
  by (simp add: empty_manager_def mutation_defs slot_defs NO_PEER_def)

lemma scenario3_compact: "compact scenario2 = Inr (200, scenario3)"
  by (simp add: scenario2_def scenario3_def compact_defs slot_defs)

text \<open>
  Why a valid \<^verbatim>\<open>addPeer\<close> excludes the sentinel: a slot added for \<^verbatim>\<open>NO_PEER\<close> is
  indistinguishable from a tombstone, so \<^verbatim>\<open>compact\<close> drops it and leaves its index entry
  behind.
\<close>

lemma compact_after_sentinel_peer:
  "run [AddPeer NO_PEER 5, Compact] empty_manager =
     Inr \<lparr>slots = [], slotCount = 0, fragmentation = 0, peerIndices = [(NO_PEER, 0)]\<rparr>
   \<and> \<not> verify \<lparr>slots = [], slotCount = 0, fragmentation = 0, peerIndices = [(NO_PEER, 0)]\<rparr>"
  by (simp add: empty_manager_def mutation_defs slot_defs compact_def clearLastElements.simps
      compact_loop.simps verify_def verify_index_def)

text \<open>
  C3: for every state reached from the empty state by valid calls, \<^verbatim>\<open>compact()\<close>
  returns, and afterwards: no slot is a tombstone and the slots are packed without gaps
  from 0 to \<^verbatim>\<open>slotCount\<close>; every peer of the index before is in the index after, at
  a slot with the same score, and the keys of the index are the same; the sum of the
  scores equals \<^verbatim>\<open>slotCount\<close>; \<^verbatim>\<open>fragmentation\<close> is 0; every index entry points
  to a slot of its peer, and \<^verbatim>\<open>verify()\<close> holds. The value returned is the old
  \<^verbatim>\<open>slotCount\<close> minus the new one.
\<close>

theorem compact_dense_and_preserving:
  assumes "valid_calls cs empty_manager"
  shows "\<exists>pm saved pm'. run cs empty_manager = Inr pm \<and> compact pm = Inr (saved, pm')
      \<and> saved = slotCount pm - slotCount pm'
      \<and> (\<forall>s \<in> set (slots pm'). getPeerId s \<noteq> NO_PEER)
      \<and> packed 0 (slots pm') (slotCount pm')
      \<and> (\<forall>p j. map_of (peerIndices pm) p = Some j \<longrightarrow>
            (\<exists>j'. map_of (peerIndices pm') p = Some j'
               \<and> getScore (slots pm' ! j') = getScore (slots pm ! j)))
      \<and> fst ` set (peerIndices pm') = fst ` set (peerIndices pm)
      \<and> score_sum (slots pm') = unat (slotCount pm')
      \<and> fragmentation pm' = 0
      \<and> (\<forall>p j. map_of (peerIndices pm') p = Some j \<longrightarrow>
            j < length (slots pm') \<and> getPeerId (slots pm' ! j) = p)
      \<and> verify pm'"
proof -
  obtain pm where pm: "run cs empty_manager = Inr pm" "state_inv pm"
    using state_inv_run [OF state_inv_empty assms] by blast
  obtain sl' idx' e where c: "compact pm = Inr (slotCount pm - e,
        pm\<lparr>slots := sl', peerIndices := idx', slotCount := e, fragmentation := 0\<rparr>)"
      "\<forall>s \<in> set sl'. live s" "packed 0 sl' e" "index_ok sl' idx'"
      "fst ` set idx' = fst ` set (peerIndices pm)"
      "mset (map peer_score sl') = mset (map peer_score (filter live (slots pm)))"
      "score_sum sl' = unat e"
    using compact_result [OF pm(2)] by blast
  let ?pm' = "pm\<lparr>slots := sl', peerIndices := idx', slotCount := e, fragmentation := 0\<rparr>"
  have ok: "index_ok (slots pm) (peerIndices pm)" and nk: "NO_PEER \<notin> fst ` set (peerIndices pm)"
    using pm(2) by (simp_all add: state_inv_def)
  have keep: "\<forall>p j. map_of (peerIndices pm) p = Some j \<longrightarrow>
      (\<exists>j'. map_of idx' p = Some j' \<and> getScore (sl' ! j') = getScore (slots pm ! j))"
    using compact_keeps_score [OF ok nk c(4,2,6)] by blast
  have entries: "\<forall>p j. map_of idx' p = Some j \<longrightarrow> j < length sl' \<and> getPeerId (sl' ! j) = p"
    using index_ok_bound [OF c(4)] index_ok_peer [OF c(4)] by blast
  have vf: "verify ?pm'"
    using compacted_verified [OF c(3,4,7)] by (rule verified_verify)
  show ?thesis
  proof (intro exI conjI)
    show "run cs empty_manager = Inr pm"
      by (rule pm(1))
    show "compact pm = Inr (slotCount pm - e, ?pm')"
      by (rule c(1))
    show "slotCount pm - e = slotCount pm - slotCount ?pm'"
      by simp
    show "\<forall>s \<in> set (slots ?pm'). getPeerId s \<noteq> NO_PEER"
      using c(2) by (simp add: live_def)
    show "packed 0 (slots ?pm') (slotCount ?pm')"
      using c(3) by simp
    show "\<forall>p j. map_of (peerIndices pm) p = Some j \<longrightarrow>
        (\<exists>j'. map_of (peerIndices ?pm') p = Some j'
           \<and> getScore (slots ?pm' ! j') = getScore (slots pm ! j))"
      using keep by simp
    show "fst ` set (peerIndices ?pm') = fst ` set (peerIndices pm)"
      using c(5) by simp
    show "score_sum (slots ?pm') = unat (slotCount ?pm')"
      using c(7) by simp
    show "fragmentation ?pm' = 0"
      by simp
    show "\<forall>p j. map_of (peerIndices ?pm') p = Some j \<longrightarrow>
        j < length (slots ?pm') \<and> getPeerId (slots ?pm' ! j) = p"
      using entries by simp
    show "verify ?pm'"
      by (rule vf)
  qed
qed

theorem compact_dense_and_preserving_witness:
  "valid_calls [AddPeer 10 100, AddPeer 20 200, AddPeer 30 300, RemovePeer 20] empty_manager
   \<and> run [AddPeer 10 100, AddPeer 20 200, AddPeer 30 300, RemovePeer 20] empty_manager = Inr scenario2
   \<and> compact scenario2 = Inr (200, scenario3)
   \<and> packed 0 (slots scenario3) (slotCount scenario3)
   \<and> score_sum (slots scenario3) = unat (slotCount scenario3)
   \<and> fragmentation scenario3 = 0
   \<and> verify scenario3"
proof -
  note t = compact_dense_and_preserving [OF scenario2_valid, unfolded scenario2_run]
  have "packed 0 (slots scenario3) (slotCount scenario3)
      \<and> score_sum (slots scenario3) = unat (slotCount scenario3)
      \<and> fragmentation scenario3 = 0 \<and> verify scenario3"
    using t by (simp add: scenario3_compact)
  then show ?thesis
    using scenario2_valid scenario2_run scenario3_compact by (simp del: run.simps valid_calls.simps)
qed

text \<open>
  C4: \<^verbatim>\<open>compact()\<close> is idempotent. For every state reached from the empty state by
  valid calls, a second \<^verbatim>\<open>compact()\<close> right after the first returns 0 and leaves the
  whole state (slots, index, \<^verbatim>\<open>slotCount\<close>, \<^verbatim>\<open>fragmentation\<close>) as the first
  call left it.
\<close>

theorem compact_idempotent:
  assumes "valid_calls cs empty_manager"
  shows "\<exists>pm saved pm'. run cs empty_manager = Inr pm \<and> compact pm = Inr (saved, pm')
      \<and> compact pm' = Inr (0, pm')"
proof -
  obtain pm where pm: "run cs empty_manager = Inr pm" "state_inv pm"
    using state_inv_run [OF state_inv_empty assms] by blast
  obtain sl' idx' e where c: "compact pm = Inr (slotCount pm - e,
        pm\<lparr>slots := sl', peerIndices := idx', slotCount := e, fragmentation := 0\<rparr>)"
      "\<forall>s \<in> set sl'. live s" "packed 0 sl' e"
    using compact_result [OF pm(2)] by blast
  let ?pm' = "pm\<lparr>slots := sl', peerIndices := idx', slotCount := e, fragmentation := 0\<rparr>"
  have "compact ?pm' = Inr (0, ?pm')"
    using c(2,3) by (intro compacted_fixpoint) simp_all
  then have "run cs empty_manager = Inr pm \<and> compact pm = Inr (slotCount pm - e, ?pm')
      \<and> compact ?pm' = Inr (0, ?pm')"
    using pm(1) c(1) by simp
  then show ?thesis
    by (intro exI)
qed

theorem compact_idempotent_witness:
  "valid_calls [AddPeer 10 100, AddPeer 20 200, AddPeer 30 300, RemovePeer 20] empty_manager
   \<and> run [AddPeer 10 100, AddPeer 20 200, AddPeer 30 300, RemovePeer 20] empty_manager = Inr scenario2
   \<and> compact scenario2 = Inr (200, scenario3)
   \<and> compact scenario3 = Inr (0, scenario3)"
proof -
  note t = compact_idempotent [OF scenario2_valid, unfolded scenario2_run]
  have "compact scenario3 = Inr (0, scenario3)"
    using t by (simp add: scenario3_compact)
  then show ?thesis
    using scenario2_valid scenario2_run scenario3_compact by (simp del: run.simps valid_calls.simps)
qed

end
